theory Spec2Isabelle
  imports Complex_Main
begin

section \<open>Values shared by the three classes\<close>

text \<open>
  The exceptions of \<^verbatim>\<open>brozzler/browser.py\<close> and of the library calls it makes, as values.
  \<open>BrowsingAborted\<close> is a subclass of \<open>BrowsingException\<close> in the source (lines 54-58); the
  subclass relation is the predicate \<open>is_BrowsingException\<close>. \<open>BrowsingException\<close> carries
  the value formatted into its message (the websocket url), \<open>PyException\<close> is the plain
  \<open>Exception\<close> of \<open>Chrome.start\<close>, \<open>DecodeError\<close> is what \<open>base64.b64decode\<close> raises and
  \<open>URLError\<close> what \<open>urlopen\<close> raises.
\<close>

datatype json =
    JNull
  | JBool bool
  | JInt int
  | JStr string
  | JArr "json list"
  | JObj "(string \<times> json) list"

type_synonym dict = "(string \<times> json) list"

datatype error =
    KeyError
  | TypeError
  | IndexError
  | AttributeError
  | DecodeError
  | URLError
  | BrowsingException "json option"
  | BrowsingAborted
  | PyException

fun is_BrowsingException :: "error \<Rightarrow> bool" where
  "is_BrowsingException (BrowsingException u) = True"
| "is_BrowsingException BrowsingAborted = True"
| "is_BrowsingException e = False"

text \<open>
  What a call leaves behind: it returned a value, it raised, or the schedule of the
  environment ended while it was still inside its loop.
\<close>

datatype 'a outcome = Returned 'a | Raised error | Running

text \<open>
  The calls the module makes on its collaborators, in the order it makes them. Logging is
  left out. \<open>Send i m ps\<close> is the JSON text \<open>send_to_chrome\<close> writes to the websocket.
\<close>

datatype event =
    Send int string "json option"
  | OnRequest dict
  | OnScreenshot string
  | OnUrlChange json
  | BehaviorNew string
  | BehaviorStart
  | BehaviorNotifyActivity
  | BehaviorNotifyResult dict
  | WebsockClose
  | MkTempDir string
  | Popen "string list" string
  | Urlopen string
  | Terminate nat
  | Poll nat
  | Kill nat
  | Wait nat
  | Cleanup string

subsection \<open>Decoded JSON as Python sees it\<close>

text \<open>
  \<open>json.loads\<close> gives dicts, lists, strings, integers, booleans and \<open>None\<close>; numbers with a
  fraction are not part of this model. A dict is an association list read with \<open>map_of\<close>.
  \<open>subscript j k\<close> is \<open>j[k]\<close> for a string \<open>k\<close> and \<open>subscript0 j\<close> is \<open>j[0]\<close>.
\<close>

definition bind_err :: "error + 'a \<Rightarrow> ('a \<Rightarrow> error + 'b) \<Rightarrow> error + 'b" where
  "bind_err r f = (case r of Inl e \<Rightarrow> Inl e | Inr v \<Rightarrow> f v)"

fun subscript :: "json \<Rightarrow> string \<Rightarrow> error + json" where
  "subscript (JObj kv) k = (case map_of kv k of None \<Rightarrow> Inl KeyError | Some v \<Rightarrow> Inr v)"
| "subscript j k = Inl TypeError"

fun subscript0 :: "json \<Rightarrow> error + json" where
  "subscript0 (JArr []) = Inl IndexError"
| "subscript0 (JArr (x # xs)) = Inr x"
| "subscript0 (JStr []) = Inl IndexError"
| "subscript0 (JStr (c # cs)) = Inr (JStr [c])"
| "subscript0 (JObj kv) = Inl KeyError"
| "subscript0 j = Inl TypeError"

text \<open>\<open>for x in j\<close>: a list yields its items, a dict its keys, a string its characters.\<close>

fun py_iter :: "json \<Rightarrow> error + json list" where
  "py_iter (JArr xs) = Inr xs"
| "py_iter (JObj kv) = Inr (map (\<lambda>(k, v). JStr k) kv)"
| "py_iter (JStr s) = Inr (map (\<lambda>c. JStr [c]) s)"
| "py_iter j = Inl TypeError"

text \<open>
  \<open>x == i\<close> for a decoded value \<open>x\<close> and a slot \<open>i\<close> that holds \<open>None\<close> or an integer:
  \<open>None == None\<close>, and Python's \<open>True == 1\<close> and \<open>False == 0\<close>.
\<close>

fun py_eq_id :: "json \<Rightarrow> int option \<Rightarrow> bool" where
  "py_eq_id JNull None = True"
| "py_eq_id (JInt n) (Some m) = (n = m)"
| "py_eq_id (JBool b) (Some m) = ((if b then 1 else 0) = m)"
| "py_eq_id j i = False"

text \<open>
  \<open>str.lower\<close> on the ASCII letters and \<open>str.startswith\<close>; \<open>.lower()\<close> on a value that is
  not a string raises \<open>AttributeError\<close>.
\<close>

definition lower_char :: "char \<Rightarrow> char" where
  "lower_char c =
     (case map_of (zip ''ABCDEFGHIJKLMNOPQRSTUVWXYZ'' ''abcdefghijklmnopqrstuvwxyz'') c of
        None \<Rightarrow> c | Some d \<Rightarrow> d)"

fun py_lower :: "json \<Rightarrow> error + string" where
  "py_lower (JStr s) = Inr (map lower_char s)"
| "py_lower j = Inl AttributeError"

definition startswith :: "string \<Rightarrow> string \<Rightarrow> bool" where
  "startswith s p \<longleftrightarrow> take (length p) s = p"

text \<open>
  \<open>s.split(" ")\<close>: every single space separates, so \<open>n\<close> spaces give \<open>n + 1\<close> fields, empty
  ones included. The last case of the inner \<open>case\<close> cannot happen: the result is never empty.
\<close>

fun split_on :: "char \<Rightarrow> string \<Rightarrow> string list" where
  "split_on c [] = [[]]"
| "split_on c (x # xs) =
     (if x = c then [] # split_on c xs
      else (case split_on c xs of w # ws \<Rightarrow> (x # w) # ws | [] \<Rightarrow> [[x]]))"

fun py_split :: "json \<Rightarrow> error + string list" where
  "py_split (JStr s) = Inr (split_on CHR '' '' s)"
| "py_split j = Inl AttributeError"

text \<open>\<open>str(i)\<close> for an integer, as \<open>format\<close> and \<open>%s\<close> print it.\<close>

definition digit_char :: "nat \<Rightarrow> char" where
  "digit_char d = (''0123456789'' ! d)"

function str_nat :: "nat \<Rightarrow> string" where
  "str_nat n = (if n < 10 then [digit_char n] else str_nat (n div 10) @ [digit_char (n mod 10)])"
  by pat_completeness auto
termination
  by (relation "measure id") auto

definition str_int :: "int \<Rightarrow> string" where
  "str_int i = (if i < 0 then CHR ''-'' # str_nat (nat (- i)) else str_nat (nat i))"

section \<open>The chrome process (class Chrome)\<close>

text \<open>
  The operating system as far as the module touches it: the process ids that are alive and
  the directories that exist.
\<close>

record os =
  procs :: "nat set"
  dirs :: "string set"

record Chrome =
  port :: int
  executable :: string
  user_home_dir :: string
  user_data_dir :: string
  chrome_proxy :: "string option"
  chrome_ignore_cert_errors :: bool
  chrome_process :: "nat option"
  chrome_start_time :: real

text \<open>\<open>Chrome.__init__\<close> (lines 266-272); \<open>chrome_process\<close> and \<open>_start\<close> exist after \<open>start\<close>.\<close>

definition Chrome_init :: "int \<Rightarrow> string \<Rightarrow> string \<Rightarrow> string \<Rightarrow> string option \<Rightarrow> bool \<Rightarrow> Chrome" where
  "Chrome_init prt exe home data prx ice =
     \<lparr>port = prt, executable = exe, user_home_dir = home, user_data_dir = data,
      chrome_proxy = prx, chrome_ignore_cert_errors = ice, chrome_process = None,
      chrome_start_time = 0\<rparr>"

text \<open>The argument vector of lines 286-299; \<open>if self.proxy\<close> is false for \<open>None\<close> and for \<open>""\<close>.\<close>

definition chrome_args :: "Chrome \<Rightarrow> string list" where
  "chrome_args c =
     [executable c,
      ''--use-mock-keychain'',
      ''--user-data-dir='' @ user_data_dir c,
      ''--remote-debugging-port='' @ str_int (port c),
      ''--disable-web-sockets'', ''--disable-cache'',
      ''--window-size=1100,900'', ''--no-default-browser-check'',
      ''--disable-first-run-ui'', ''--no-first-run'',
      ''--homepage=about:blank'', ''--disable-direct-npapi-requests'',
      ''--disable-web-security'']
     @ (if chrome_ignore_cert_errors c then [''--ignore-certificate-errors''] else [])
     @ (case chrome_proxy c of
          None \<Rightarrow> []
        | Some prx \<Rightarrow> if prx = [] then [] else [''--proxy-server='' @ prx])
     @ [''about:blank'']"

definition json_url :: "Chrome \<Rightarrow> string" where
  "json_url c = ''http://localhost:'' @ str_int (port c) @ ''/json''"

text \<open>
  The body of the \<open>try\<close> of lines 308-317 on the decoded answer of one GET:
  \<open>debug_info\<close> is the list of the entries whose \<open>url\<close> is \<open>about:blank\<close>, in the order
  of the answer (an entry that cannot be subscripted with \<open>'url'\<close> raises), and only
  \<open>debug_info[0]\<close> is looked at. \<open>Inr None\<close> is the \<open>if\<close> not taken.
\<close>

fun about_blank_entries :: "json list \<Rightarrow> error + json list" where
  "about_blank_entries [] = Inr []"
| "about_blank_entries (x # xs) =
     bind_err (subscript x ''url'') (\<lambda>u.
       bind_err (about_blank_entries xs) (\<lambda>r.
         Inr (if u = JStr ''about:blank'' then x # r else r)))"

fun has_key :: "json \<Rightarrow> string \<Rightarrow> bool" where
  "has_key (JObj kv) k = (map_of kv k \<noteq> None)"
| "has_key j k = False"

definition try_debug_url :: "error + json \<Rightarrow> error + json option" where
  "try_debug_url resp =
     bind_err resp (\<lambda>all_debug_info.
       bind_err (py_iter all_debug_info) (\<lambda>items.
         bind_err (about_blank_entries items) (\<lambda>debug_info.
           (case debug_info of
              [] \<Rightarrow> Inr None
            | d # ds \<Rightarrow>
                if has_key d ''webSocketDebuggerUrl''
                then bind_err (subscript d ''webSocketDebuggerUrl'') (\<lambda>u. Inr (Some u))
                else Inr None))))"

text \<open>
  One round of the \<open>while True\<close> of lines 307-324 is one \<open>poll\<close>: what \<open>urlopen\<close> and
  \<open>json.loads\<close> gave (or the exception they raised) and the clock read in the \<open>finally\<close>.
  The bare \<open>except\<close> swallows every exception of the \<open>try\<close>; the \<open>finally\<close> runs on the
  \<open>return\<close> as well, and its \<open>raise\<close> replaces the return.
\<close>

record poll =
  response :: "error + json"
  poll_end :: real

definition timeout_sec_start :: real where
  "timeout_sec_start = 600"

fun start_loop :: "string \<Rightarrow> real \<Rightarrow> poll list \<Rightarrow> event list \<times> json outcome" where
  "start_loop u t0 [] = ([], Running)"
| "start_loop u t0 (p # ps) =
     (if poll_end p - t0 > timeout_sec_start then ([Urlopen u], Raised PyException)
      else (case try_debug_url (response p) of
              Inr (Some ws) \<Rightarrow> ([Urlopen u], Returned ws)
            | _ \<Rightarrow> (case start_loop u t0 ps of (evs, r) \<Rightarrow> (Urlopen u # evs, r))))"

text \<open>
  \<open>Chrome.start\<close> (lines 282-324). \<open>pid\<close> is the process \<open>Popen\<close> spawned and \<open>t0\<close> the
  clock stored in \<open>_start\<close>.
\<close>

definition Chrome_start ::
  "nat \<Rightarrow> real \<Rightarrow> poll list \<Rightarrow> Chrome \<Rightarrow> os \<Rightarrow> Chrome \<times> os \<times> event list \<times> json outcome" where
  "Chrome_start pid t0 polls c sys =
     (let c1 = c\<lparr>chrome_process := Some pid, chrome_start_time := t0\<rparr>;
          sys1 = sys\<lparr>procs := insert pid (procs sys)\<rparr>
      in (case start_loop (json_url c1) t0 polls of
            (evs, r) \<Rightarrow> (c1, sys1, Popen (chrome_args c) (user_home_dir c) # evs, r)))"

text \<open>
  \<open>Chrome.stop\<close> (lines 326-352). One round of its \<open>while\<close> reads the clock in the loop
  condition (\<open>t_while\<close>), sleeps, polls the process (\<open>status\<close>), reads the clock for the
  ten-second test (\<open>t_check\<close>) and, when it signals again, for \<open>last_sigterm\<close> (\<open>t_mark\<close>).
  A status from \<open>poll()\<close> and the return of \<open>wait()\<close> both mean that the process is gone.
  The function never touches a directory.
\<close>

record stop_tick =
  t_while :: real
  status :: "int option"
  t_check :: real
  t_mark :: real

definition timeout_sec_stop :: real where
  "timeout_sec_stop = 300"

fun stop_loop :: "nat \<Rightarrow> real \<Rightarrow> real \<Rightarrow> stop_tick list \<Rightarrow> os \<Rightarrow> os \<times> event list \<times> unit outcome" where
  "stop_loop pid first_sigterm last_sigterm [] sys = (sys, [], Running)"
| "stop_loop pid first_sigterm last_sigterm (t # ts) sys =
     (if t_while t - first_sigterm < timeout_sec_stop then
        (case status t of
           Some st \<Rightarrow> (sys\<lparr>procs := procs sys - {pid}\<rparr>, [Poll pid], Returned ())
         | None \<Rightarrow>
             if t_check t - last_sigterm > 10
             then (case stop_loop pid first_sigterm (t_mark t) ts sys of
                     (sys', evs, r) \<Rightarrow> (sys', Poll pid # Terminate pid # evs, r))
             else (case stop_loop pid first_sigterm last_sigterm ts sys of
                     (sys', evs, r) \<Rightarrow> (sys', Poll pid # evs, r)))
      else (sys\<lparr>procs := procs sys - {pid}\<rparr>, [Kill pid, Wait pid], Returned ()))"

definition Chrome_stop :: "real \<Rightarrow> stop_tick list \<Rightarrow> Chrome \<Rightarrow> os \<Rightarrow> os \<times> event list \<times> unit outcome" where
  "Chrome_stop t0 ticks c sys =
     (case chrome_process c of
        None \<Rightarrow> (sys, [], Raised AttributeError)
      | Some pid \<Rightarrow>
          (case stop_loop pid t0 t0 ticks sys of
             (sys', evs, r) \<Rightarrow> (sys', Terminate pid # evs, r)))"

section \<open>The driver (class Browser)\<close>

text \<open>
  \<open>Behavior\<close> is imported from \<open>brozzler.behaviors\<close>; only its constructor's argument is
  kept. What its methods \<open>is_finished\<close> and \<open>is_waiting_on_result\<close> answer is an input of
  the functions that call them. A callback slot holds whether a callback was given; calling
  it is an event. \<open>websock\<close> is \<open>None\<close> for no \<open>WebSocketApp\<close> and otherwise holds whether
  \<open>sock\<close> is there and connected. \<open>command_id\<close> is the next value of
  \<open>itertools.count(1)\<close>. Objects are shared by reference between the pool's two sets and
  their users, so browsers live in a heap (a list, the address is the index) and the pool
  holds addresses.
\<close>

datatype Behavior = Behavior string

text \<open>
  The attribute \<open>_work_dir\<close>: \<open>__init__\<close> does not set it, \<open>start\<close> stores a
  \<open>TemporaryDirectory\<close> (its name is kept) and \<open>stop\<close> stores \<open>None\<close>. Reading it on an
  object that never ran \<open>start\<close> raises \<open>AttributeError\<close>.
\<close>

datatype tempdir = NoAttribute | PyNone | TemporaryDirectory string

record Browser =
  command_id :: int
  chrome_port :: int
  chrome_exe :: string
  proxy :: "string option"
  ignore_cert_errors :: bool
  behavior :: "Behavior option"
  websock :: "bool option"
  abort_browse_page_flag :: bool
  chrome_instance :: "Chrome option"
  work_dir :: tempdir
  websocket_url :: "json option"
  url :: string
  on_request :: bool
  on_screenshot :: bool
  on_url_change :: bool
  waiting_on_screenshot_msg_id :: "int option"
  waiting_on_outlinks_msg_id :: "int option"
  outlinks :: "string set option"
  waiting_on_document_url_msg_id :: "int option"
  start_time :: real

definition HARD_TIMEOUT_SECONDS :: real where
  "HARD_TIMEOUT_SECONDS = 20 * 60"

text \<open>
  \<open>Browser.__init__\<close> (lines 70-79). The attributes that \<open>start\<close> and \<open>browse_page\<close> add
  later are absent in Python until then: \<open>work_dir\<close> and \<open>websocket_url\<close>, which are read
  before they are written, start as absent; the visit's fields, which \<open>browse_page\<close> writes
  before anything reads them, start empty.
\<close>

definition Browser_init :: "int \<Rightarrow> string \<Rightarrow> string option \<Rightarrow> bool \<Rightarrow> Browser" where
  "Browser_init prt exe prx ice =
     \<lparr>command_id = 1, chrome_port = prt, chrome_exe = exe, proxy = prx,
      ignore_cert_errors = ice, behavior = None, websock = None,
      abort_browse_page_flag = False, chrome_instance = None, work_dir = NoAttribute,
      websocket_url = None, url = [], on_request = False, on_screenshot = False,
      on_url_change = False, waiting_on_screenshot_msg_id = None,
      waiting_on_outlinks_msg_id = None, outlinks = None,
      waiting_on_document_url_msg_id = None, start_time = 0\<rparr>"

text \<open>
  \<open>Browser.start\<close> (lines 91-100): \<open>tmp\<close> is the name \<open>tempfile.TemporaryDirectory()\<close>
  chose; \<open>proxy or self.proxy\<close> takes the argument unless it is \<open>None\<close> or empty.
\<close>

definition sep :: string where
  "sep = ''/''"

definition Browser_start ::
  "string \<Rightarrow> string option \<Rightarrow> nat \<Rightarrow> real \<Rightarrow> poll list \<Rightarrow> Browser \<Rightarrow> os \<Rightarrow>
     Browser \<times> os \<times> event list \<times> unit outcome" where
  "Browser_start tmp prx pid t0 polls s sys =
     (let sys1 = sys\<lparr>dirs := insert tmp (dirs sys)\<rparr>;
          s1 = s\<lparr>work_dir := TemporaryDirectory tmp\<rparr>;
          c = Chrome_init (chrome_port s1) (chrome_exe s1) tmp (tmp @ sep @ ''chrome-user-data'')
                (if prx = None \<or> prx = Some [] then proxy s1 else prx) (ignore_cert_errors s1)
      in (case Chrome_start pid t0 polls c sys1 of
            (c', sys2, evs, r) \<Rightarrow>
              (case r of
                 Returned ws \<Rightarrow>
                   (s1\<lparr>chrome_instance := Some c', websocket_url := Some ws\<rparr>, sys2,
                    MkTempDir tmp # evs, Returned ())
               | Raised e \<Rightarrow> (s1\<lparr>chrome_instance := Some c'\<rparr>, sys2, MkTempDir tmp # evs, Raised e)
               | Running \<Rightarrow> (s1\<lparr>chrome_instance := Some c'\<rparr>, sys2, MkTempDir tmp # evs, Running))))"

text \<open>
  \<open>Browser.stop\<close> (lines 102-108). \<open>TemporaryDirectory.cleanup\<close> removes the directory and
  everything below it. On an object that never ran \<open>start\<close> the test \<open>if self._work_dir\<close>
  raises \<open>AttributeError\<close>; what \<open>Chrome.stop\<close> raises or never finishes ends \<open>stop\<close>
  before that test.
\<close>

definition rmtree :: "string \<Rightarrow> string set \<Rightarrow> string set" where
  "rmtree d fs = {p \<in> fs. p \<noteq> d \<and> \<not> startswith p (d @ sep)}"

definition Browser_stop ::
  "real \<Rightarrow> stop_tick list \<Rightarrow> Browser \<Rightarrow> os \<Rightarrow> Browser \<times> os \<times> event list \<times> unit outcome" where
  "Browser_stop t0 ticks s sys =
     (case (case chrome_instance s of
              None \<Rightarrow> (s, sys, [], Returned ())
            | Some c \<Rightarrow>
                (case Chrome_stop t0 ticks c sys of
                   (sys', evs, Returned u) \<Rightarrow> (s\<lparr>chrome_instance := None\<rparr>, sys', evs, Returned ())
                 | (sys', evs, r) \<Rightarrow> (s, sys', evs, r))) of
        (s1, sys1, evs, Returned u) \<Rightarrow>
          (case work_dir s1 of
             NoAttribute \<Rightarrow> (s1, sys1, evs, Raised AttributeError)
           | PyNone \<Rightarrow> (s1, sys1, evs, Returned ())
           | TemporaryDirectory d \<Rightarrow>
               (s1\<lparr>work_dir := PyNone\<rparr>, sys1\<lparr>dirs := rmtree d (dirs sys1)\<rparr>,
                evs @ [Cleanup d], Returned ()))
      | (s1, sys1, evs, r) \<Rightarrow> (s1, sys1, evs, r))"

text \<open>\<open>Browser.abort_browse_page\<close> (lines 110-111).\<close>

definition abort_browse_page :: "Browser \<Rightarrow> Browser" where
  "abort_browse_page s = s\<lparr>abort_browse_page_flag := True\<rparr>"

text \<open>
  \<open>Browser.send_to_chrome\<close> (lines 184-191): takes the next command id, writes the message
  and returns the id. The write is taken to succeed: every caller runs on a socket that was
  just seen connected.
\<close>

definition send_to_chrome :: "string \<Rightarrow> json option \<Rightarrow> Browser \<Rightarrow> Browser \<times> int \<times> event list" where
  "send_to_chrome method params s =
     (s\<lparr>command_id := command_id s + 1\<rparr>, command_id s, [Send (command_id s) method params])"

definition outlinks_expression :: string where
  "outlinks_expression =
     ''Array.prototype.slice.call(document.querySelectorAll('a[href]')).join(' ')''"

text \<open>
  \<open>Browser._browse_interval_func\<close> (lines 165-182). \<open>fin\<close> is what
  \<open>self._behavior.is_finished()\<close> answers when it is asked and \<open>now\<close> what \<open>time.time()\<close>
  reads. The result is the returned value, where \<open>None\<close> is the fall off the end of the
  function; \<open>if self._outlinks\<close> is false for \<open>None\<close> and for an empty set, \<open>not
  self._waiting_on_outlinks_msg_id\<close> is true for \<open>None\<close> and for \<open>0\<close>.
\<close>

definition browse_interval_func ::
  "bool \<Rightarrow> real \<Rightarrow> Browser \<Rightarrow> Browser \<times> event list \<times> (error + bool option)" where
  "browse_interval_func fin now s =
     (if websock s \<noteq> Some True then (s, [], Inl (BrowsingException (websocket_url s)))
      else if behavior s \<noteq> None \<and> fin then
        (if outlinks s \<noteq> None \<and> outlinks s \<noteq> Some {} then (s, [], Inr (Some True))
         else if waiting_on_outlinks_msg_id s = None \<or> waiting_on_outlinks_msg_id s = Some 0 then
           (case send_to_chrome ''Runtime.evaluate''
                   (Some (JObj [(''expression'', JStr outlinks_expression)])) s of
              (s1, msg_id, evs) \<Rightarrow>
                (s1\<lparr>waiting_on_outlinks_msg_id := Some msg_id\<rparr>, evs, Inr (Some False)))
         else (s, [], Inr None))
      else if now - start_time s > HARD_TIMEOUT_SECONDS then (s, [], Inr (Some True))
      else if abort_browse_page_flag s then (s, [], Inl BrowsingAborted)
      else (s, [], Inr None))"

text \<open>\<open>Browser._visit_page\<close> (lines 193-204), the \<open>on_open\<close> callback.\<close>

fun send_all :: "(string \<times> json option) list \<Rightarrow> Browser \<Rightarrow> Browser \<times> event list" where
  "send_all [] s = (s, [])"
| "send_all ((m, ps) # cmds) s =
     (case send_to_chrome m ps s of
        (s1, i, ev) \<Rightarrow> (case send_all cmds s1 of (s2, evs) \<Rightarrow> (s2, ev @ evs)))"

definition visit_page :: "Browser \<Rightarrow> Browser \<times> event list" where
  "visit_page s =
     send_all
       [(''Network.enable'', None),
        (''Page.enable'', None),
        (''Console.enable'', None),
        (''Debugger.enable'', None),
        (''Runtime.enable'', None),
        (''Debugger.setBreakpointByUrl'',
           Some (JObj [(''lineNumber'', JInt 1),
                       (''urlRegex'', JStr ''https?://www.google-analytics.com/analytics.js'')])),
        (''Page.navigate'', Some (JObj [(''url'', JStr (url s))]))] s"

text \<open>
  \<open>Browser._handle_message\<close> (lines 206-255) on the decoded message, a dict.
  \<open>b64decode\<close> is \<open>base64.b64decode\<close> and \<open>is_waiting\<close> is what
  \<open>self._behavior.is_waiting_on_result\<close> answers. The result holds the exception the
  handler raised, if any, with the state and the events reached by then. What
  \<open>Behavior.start\<close> and the callbacks do on their own is outside this module and not part of
  the trace.
\<close>

definition has_method :: "dict \<Rightarrow> string \<Rightarrow> bool" where
  "has_method message m \<longleftrightarrow> map_of message ''method'' = Some (JStr m)"

definition result_value :: "dict \<Rightarrow> error + json" where
  "result_value message =
     bind_err (subscript (JObj message) ''result'') (\<lambda>r.
       bind_err (subscript r ''result'') (\<lambda>rr. subscript rr ''value''))"

definition handle_request_will_be_sent :: "dict \<Rightarrow> Browser \<Rightarrow> Browser \<times> event list \<times> error option" where
  "handle_request_will_be_sent message s =
     (let evs = (if behavior s \<noteq> None then [BehaviorNotifyActivity] else [])
      in (case bind_err (subscript (JObj message) ''params'') (\<lambda>p.
                 bind_err (subscript p ''request'') (\<lambda>r.
                   bind_err (subscript r ''url'') py_lower)) of
            Inl e \<Rightarrow> (s, evs, Some e)
          | Inr u \<Rightarrow>
              if startswith u ''data:'' then (s, evs, None)
              else if on_request s then (s, evs @ [OnRequest message], None)
              else (s, evs, None)))"

definition handle_load_event_fired :: "Browser \<Rightarrow> Browser \<times> event list \<times> error option" where
  "handle_load_event_fired s =
     (case send_to_chrome ''Page.captureScreenshot'' None s of
        (s1, id1, ev1) \<Rightarrow>
          (case send_to_chrome ''Runtime.evaluate''
                  (Some (JObj [(''expression'', JStr ''document.URL'')]))
                  (s1\<lparr>waiting_on_screenshot_msg_id := Some id1\<rparr>) of
             (s2, id2, ev2) \<Rightarrow>
               (s2\<lparr>waiting_on_document_url_msg_id := Some id2\<rparr>, ev1 @ ev2, None)))"

definition handle_console_message :: "dict \<Rightarrow> Browser \<Rightarrow> Browser \<times> event list \<times> error option" where
  "handle_console_message message s =
     (case bind_err (subscript (JObj message) ''params'') (\<lambda>p.
             bind_err (subscript p ''message'') (\<lambda>m.
               bind_err (subscript m ''level'') (\<lambda>l. subscript m ''text''))) of
        Inl e \<Rightarrow> (s, [], Some e)
      | Inr t \<Rightarrow> (s, [], None))"

definition handle_debugger_paused :: "dict \<Rightarrow> Browser \<Rightarrow> Browser \<times> event list \<times> error option" where
  "handle_debugger_paused message s =
     (case bind_err (subscript (JObj message) ''params'') (\<lambda>p.
             bind_err (subscript p ''callFrames'') (\<lambda>fs.
               bind_err (subscript0 fs) (\<lambda>f.
                 bind_err (subscript f ''location'') (\<lambda>l. subscript l ''scriptId'')))) of
        Inl e \<Rightarrow> (s, [], Some e)
      | Inr scriptId \<Rightarrow>
          (case send_to_chrome ''Debugger.setScriptSource''
                  (Some (JObj [(''scriptId'', scriptId),
                               (''scriptSource'',
                                  JStr ''console.log('google analytics is no more!');'')])) s of
             (s1, id1, ev1) \<Rightarrow>
               (case send_to_chrome ''Debugger.resume'' None s1 of
                  (s2, id2, ev2) \<Rightarrow> (s2, ev1 @ ev2, None))))"

definition start_behavior :: "event list \<Rightarrow> Browser \<Rightarrow> Browser \<times> event list \<times> error option" where
  "start_behavior evs s =
     (s\<lparr>waiting_on_screenshot_msg_id := None, behavior := Some (Behavior (url s))\<rparr>,
      evs @ [BehaviorNew (url s), BehaviorStart], None)"

definition handle_result ::
  "(json \<Rightarrow> error + string) \<Rightarrow> (json \<Rightarrow> bool) \<Rightarrow> dict \<Rightarrow> Browser \<Rightarrow>
     Browser \<times> event list \<times> error option" where
  "handle_result b64decode is_waiting message s =
     (case subscript (JObj message) ''id'' of
        Inl e \<Rightarrow> (s, [], Some e)
      | Inr msg_id \<Rightarrow>
          if py_eq_id msg_id (waiting_on_screenshot_msg_id s) then
            (if on_screenshot s then
               (case bind_err (subscript (JObj message) ''result'') (\<lambda>r.
                       bind_err (subscript r ''data'') b64decode) of
                  Inl e \<Rightarrow> (s, [], Some e)
                | Inr png \<Rightarrow> start_behavior [OnScreenshot png] s)
             else start_behavior [] s)
          else if py_eq_id msg_id (waiting_on_outlinks_msg_id s) then
            (case bind_err (result_value message) py_split of
               Inl e \<Rightarrow> (s, [], Some e)
             | Inr parts \<Rightarrow> (s\<lparr>outlinks := Some (set parts)\<rparr>, [], None))
          else if py_eq_id msg_id (waiting_on_document_url_msg_id s) then
            (case result_value message of
               Inl e \<Rightarrow> (s, [], Some e)
             | Inr v \<Rightarrow>
                 (s\<lparr>waiting_on_document_url_msg_id := None\<rparr>,
                  (if v \<noteq> JStr (url s) \<and> on_url_change s then [OnUrlChange v] else []), None))
          else if behavior s \<noteq> None \<and> is_waiting msg_id then
            (s, [BehaviorNotifyResult message], None)
          else (s, [], None))"

definition handle_message ::
  "(json \<Rightarrow> error + string) \<Rightarrow> (json \<Rightarrow> bool) \<Rightarrow> dict \<Rightarrow> Browser \<Rightarrow>
     Browser \<times> event list \<times> error option" where
  "handle_message b64decode is_waiting message s =
     (if has_method message ''Network.requestWillBeSent'' then handle_request_will_be_sent message s
      else if has_method message ''Page.loadEventFired'' then handle_load_event_fired s
      else if has_method message ''Console.messageAdded'' then handle_console_message message s
      else if has_method message ''Debugger.paused'' then handle_debugger_paused message s
      else if map_of message ''result'' \<noteq> None then handle_result b64decode is_waiting message s
      else (s, [], None))"

text \<open>
  The websocket thread between two wake-ups of \<open>browse_page\<close>: the socket opens (\<open>on_open\<close>
  runs \<open>_visit_page\<close>), a message arrives (\<open>on_message\<close>; what the handler raises is logged
  by the websocket library and the thread goes on), the socket closes, or another thread calls
  \<open>abort_browse_page\<close>, as \<open>BrowserPool.shutdown_now\<close> does.
\<close>

datatype ws_event = WsOpen | WsMessage dict | WsClosed | AbortCall

fun ws_step ::
  "(json \<Rightarrow> error + string) \<Rightarrow> (json \<Rightarrow> bool) \<Rightarrow> ws_event \<Rightarrow> Browser \<Rightarrow> Browser \<times> event list" where
  "ws_step b64decode is_waiting WsOpen s = visit_page (s\<lparr>websock := Some True\<rparr>)"
| "ws_step b64decode is_waiting (WsMessage m) s =
     (case handle_message b64decode is_waiting m s of (s', evs, e) \<Rightarrow> (s', evs))"
| "ws_step b64decode is_waiting WsClosed s = (s\<lparr>websock := Some False\<rparr>, [])"
| "ws_step b64decode is_waiting AbortCall s = (abort_browse_page s, [])"

fun ws_steps ::
  "(json \<Rightarrow> error + string) \<Rightarrow> (json \<Rightarrow> bool) \<Rightarrow> ws_event list \<Rightarrow> Browser \<Rightarrow> Browser \<times> event list" where
  "ws_steps b64decode is_waiting [] s = (s, [])"
| "ws_steps b64decode is_waiting (w # ws) s =
     (case ws_step b64decode is_waiting w s of
        (s1, ev1) \<Rightarrow>
          (case ws_steps b64decode is_waiting ws s1 of (s2, ev2) \<Rightarrow> (s2, ev1 @ ev2)))"

text \<open>
  \<open>Browser.browse_page\<close> (lines 113-163). One round of its \<open>while True\<close> is a \<open>tick\<close>:
  what the websocket thread did during the \<open>sleep(0.5)\<close>, then the clock and the behavior's
  answer that \<open>_browse_interval_func\<close> reads. The \<open>finally\<close> closes a socket that is still
  connected and clears \<open>_behavior\<close>; the joins of the thread are not modelled.
\<close>

record tick =
  incoming :: "ws_event list"
  clock :: real
  finished :: bool

fun browse_loop ::
  "(json \<Rightarrow> error + string) \<Rightarrow> (json \<Rightarrow> bool) \<Rightarrow> tick list \<Rightarrow> Browser \<Rightarrow>
     Browser \<times> event list \<times> string set option outcome" where
  "browse_loop b64decode is_waiting [] s = (s, [], Running)"
| "browse_loop b64decode is_waiting (t # ts) s =
     (case ws_steps b64decode is_waiting (incoming t) s of
        (s1, ev1) \<Rightarrow>
          (case browse_interval_func (finished t) (clock t) s1 of
             (s2, ev2, Inl e) \<Rightarrow> (s2, ev1 @ ev2, Raised e)
           | (s2, ev2, Inr r) \<Rightarrow>
               if r = Some True then (s2, ev1 @ ev2, Returned (outlinks s2))
               else (case browse_loop b64decode is_waiting ts s2 of
                       (s3, ev3, out) \<Rightarrow> (s3, ev1 @ ev2 @ ev3, out))))"

definition browse_finally :: "Browser \<Rightarrow> Browser \<times> event list" where
  "browse_finally s =
     (if websock s = Some True
      then (s\<lparr>websock := Some False, behavior := None\<rparr>, [WebsockClose])
      else (s\<lparr>behavior := None\<rparr>, []))"

definition reset_visit :: "string \<Rightarrow> bool \<Rightarrow> bool \<Rightarrow> bool \<Rightarrow> Browser \<Rightarrow> Browser" where
  "reset_visit u on_req on_shot on_chg s =
     s\<lparr>url := u, on_request := on_req, on_screenshot := on_shot,
       waiting_on_screenshot_msg_id := None, waiting_on_outlinks_msg_id := None,
       outlinks := None, on_url_change := on_chg, waiting_on_document_url_msg_id := None\<rparr>"

definition browse_page ::
  "(json \<Rightarrow> error + string) \<Rightarrow> (json \<Rightarrow> bool) \<Rightarrow> string \<Rightarrow> bool \<Rightarrow> bool \<Rightarrow> bool \<Rightarrow> real \<Rightarrow>
     tick list \<Rightarrow> Browser \<Rightarrow> Browser \<times> event list \<times> string set option outcome" where
  "browse_page b64decode is_waiting u on_req on_shot on_chg t0 ticks s =
     (let s0 = reset_visit u on_req on_shot on_chg s
      in if websocket_url s0 = None then (s0, [], Raised AttributeError)
         else
           (case browse_loop b64decode is_waiting ticks
                   (s0\<lparr>websock := Some False, start_time := t0\<rparr>) of
              (s1, evs, Running) \<Rightarrow> (s1, evs, Running)
            | (s1, evs, r) \<Rightarrow>
                (case browse_finally s1 of (s2, ev2) \<Rightarrow> (s2, evs @ ev2, r))))"

text \<open>
  Stand-ins for the two collaborators in the worked examples below: a decoder that knows the
  base64 text of the three bytes \<open>PNG\<close>, a behavior that waits on no reply, and a driver
  whose \<open>start\<close> has stored a websocket url.
\<close>

definition example_b64decode :: "json \<Rightarrow> error + string" where
  "example_b64decode j = (if j = JStr ''UE5H'' then Inr ''PNG'' else Inl DecodeError)"

definition example_is_waiting :: "json \<Rightarrow> bool" where
  "example_is_waiting j = False"

definition example_browser :: Browser where
  "example_browser =
     (Browser_init 9200 ''chromium-browser'' None False)
       \<lparr>websocket_url := Some (JStr ''ws://localhost:9200/devtools/page/1'')\<rparr>"

definition load_event :: dict where
  "load_event = [(''method'', JStr ''Page.loadEventFired'')]"

definition screenshot_reply :: "int \<Rightarrow> dict" where
  "screenshot_reply i = [(''id'', JInt i), (''result'', JObj [(''data'', JStr ''UE5H'')])]"

definition value_reply :: "int \<Rightarrow> string \<Rightarrow> dict" where
  "value_reply i v =
     [(''id'', JInt i),
      (''result'', JObj [(''result'', JObj [(''type'', JStr ''string''), (''value'', JStr v)])])]"

section \<open>The browser pool\<close>

text \<open>
  \<open>BrowserPool\<close> (lines 20-52): two Python sets of browser objects (addresses) and a
  \<open>threading.Lock\<close>. The lock is the field \<open>lock_held\<close>: a \<open>with self._lock\<close> block
  entered while the lock is held by somebody else does not return (the value \<open>None\<close>),
  otherwise it runs its body with the lock held and gives the lock back on every exit, also
  when the body raises.
\<close>

record BrowserPool =
  available :: "nat set"
  in_use :: "nat set"
  lock_held :: bool

definition BASE_PORT :: int where
  "BASE_PORT = 9200"

text \<open>
  \<open>BrowserPool.__init__\<close> (lines 25-36). The loop body allocates one browser at the next free
  address and adds it to \<open>_available\<close>; \<open>range(0, size)\<close> is empty for \<open>size \<le> 0\<close>
  (the parameter \<open>size\<close> is \<open>sz\<close> here).
\<close>

definition init_step ::
  "string \<Rightarrow> string option \<Rightarrow> bool \<Rightarrow> Browser list \<times> nat set \<Rightarrow> int \<Rightarrow> Browser list \<times> nat set" where
  "init_step exe prx ice st i =
     (case st of (heap, avail) \<Rightarrow>
        (heap @ [Browser_init (BASE_PORT + i) exe prx ice], insert (length heap) avail))"

definition BrowserPool_init ::
  "int \<Rightarrow> string \<Rightarrow> string option \<Rightarrow> bool \<Rightarrow> Browser list \<Rightarrow> BrowserPool \<times> Browser list" where
  "BrowserPool_init sz exe prx ice heap =
     (case foldl (init_step exe prx ice) (heap, {}) [0..sz - 1] of
        (heap', avail) \<Rightarrow> (\<lparr>available = avail, in_use = {}, lock_held = False\<rparr>, heap'))"

definition with_lock ::
  "(BrowserPool \<Rightarrow> BrowserPool \<times> 'a) \<Rightarrow> BrowserPool \<Rightarrow> (BrowserPool \<times> 'a) option" where
  "with_lock body p =
     (if lock_held p then None
      else (case body (p\<lparr>lock_held := True\<rparr>) of
              (p', r) \<Rightarrow> Some (p'\<lparr>lock_held := False\<rparr>, r)))"

text \<open>
  \<open>BrowserPool.acquire\<close> (lines 38-43). \<open>set.pop()\<close> raises \<open>KeyError\<close> on the empty set and
  otherwise removes and returns an element of its own choosing; the choice is the parameter
  \<open>pick\<close>.
\<close>

definition acquire_body :: "(nat set \<Rightarrow> nat) \<Rightarrow> BrowserPool \<Rightarrow> BrowserPool \<times> (error + nat)" where
  "acquire_body pick p =
     (if available p = {} then (p, Inl KeyError)
      else
        let browser = pick (available p);
            p1 = p\<lparr>available := available p - {browser}\<rparr>;
            p2 = p1\<lparr>in_use := insert browser (in_use p1)\<rparr>
        in (p2, Inr browser))"

definition acquire ::
  "(nat set \<Rightarrow> nat) \<Rightarrow> BrowserPool \<Rightarrow> (BrowserPool \<times> (error + nat)) option" where
  "acquire pick = with_lock (acquire_body pick)"

text \<open>
  \<open>BrowserPool.release\<close> (lines 45-48): \<open>add\<close> first, then \<open>remove\<close>, which raises
  \<open>KeyError\<close> when the browser is not in \<open>_in_use\<close>; the \<open>add\<close> has happened by then.
\<close>

definition release_body :: "nat \<Rightarrow> BrowserPool \<Rightarrow> BrowserPool \<times> (error + unit)" where
  "release_body browser p =
     (let p1 = p\<lparr>available := insert browser (available p)\<rparr>
      in if browser \<in> in_use p1
         then (p1\<lparr>in_use := in_use p1 - {browser}\<rparr>, Inr ())
         else (p1, Inl KeyError))"

definition release :: "nat \<Rightarrow> BrowserPool \<Rightarrow> (BrowserPool \<times> (error + unit)) option" where
  "release browser = with_lock (release_body browser)"

text \<open>
  \<open>BrowserPool.shutdown_now\<close> (lines 50-52): no \<open>with self._lock\<close>; the loop visits the
  members of \<open>_in_use\<close> in the set's own order, given here as the list \<open>order\<close> of the
  addresses it yields. Only the browsers change, so the pool is handed back as it came.
\<close>

definition abort_at :: "Browser list \<Rightarrow> nat \<Rightarrow> Browser list" where
  "abort_at heap a = (if a < length heap then heap[a := abort_browse_page (heap ! a)] else heap)"

definition shutdown_now :: "nat list \<Rightarrow> BrowserPool \<Rightarrow> Browser list \<Rightarrow> BrowserPool \<times> Browser list" where
  "shutdown_now order p heap = (p, foldl abort_at heap order)"

text \<open>
  A client of the pool: a sequence of calls on one pool, each exception caught by the caller.
  A call that blocks on the lock ends the run with \<open>None\<close>.
\<close>

datatype pool_call = Acquire | Release nat | ShutdownNow "nat list"

fun do_call :: "(nat set \<Rightarrow> nat) \<Rightarrow> pool_call \<Rightarrow> BrowserPool \<times> Browser list \<Rightarrow>
    (BrowserPool \<times> Browser list) option" where
  "do_call pick Acquire (p, heap) = map_option (\<lambda>(p', r). (p', heap)) (acquire pick p)"
| "do_call pick (Release b) (p, heap) = map_option (\<lambda>(p', r). (p', heap)) (release b p)"
| "do_call pick (ShutdownNow order) (p, heap) = Some (shutdown_now order p heap)"

fun run_calls :: "(nat set \<Rightarrow> nat) \<Rightarrow> pool_call list \<Rightarrow> BrowserPool \<times> Browser list \<Rightarrow>
    (BrowserPool \<times> Browser list) option" where
  "run_calls pick [] st = Some st"
| "run_calls pick (c # cs) st =
     (case do_call pick c st of None \<Rightarrow> None | Some st' \<Rightarrow> run_calls pick cs st')"

text \<open>
  The partition of a fixed set of drivers into the two sets, and the spec's property P1 as it
  is worded: the sets are disjoint and the cardinality of their union is the pool's size.
\<close>

definition pool_partition :: "nat set \<Rightarrow> BrowserPool \<Rightarrow> bool" where
  "pool_partition D p \<longleftrightarrow> available p \<inter> in_use p = {} \<and> available p \<union> in_use p = D"

definition P1 :: "int \<Rightarrow> BrowserPool \<Rightarrow> bool" where
  "P1 sz p \<longleftrightarrow> available p \<inter> in_use p = {} \<and> int (card (available p \<union> in_use p)) = sz"

section \<open>Notions used in the statements\<close>

text \<open>The fields of the driver that no message and no wake-up of the loop changes.\<close>

definition same_frame :: "Browser \<Rightarrow> Browser \<Rightarrow> bool" where
  "same_frame s s' \<longleftrightarrow>
     abort_browse_page_flag s' = abort_browse_page_flag s \<and> start_time s' = start_time s \<and>
     websock s' = websock s \<and> websocket_url s' = websocket_url s \<and> url s' = url s \<and>
     on_screenshot s' = on_screenshot s"

text \<open>Two equal neighbours \<open>c\<close> in a list.\<close>

fun adjacent :: "'a \<Rightarrow> 'a list \<Rightarrow> bool" where
  "adjacent c (x # y # zs) = ((x = c \<and> y = c) \<or> adjacent c (y # zs))"
| "adjacent c zs = False"

text \<open>The value of \<open>_outlinks\<close> during a visit: still \<open>None\<close>, or the fields of some string.\<close>

definition split_result :: "string set option \<Rightarrow> bool" where
  "split_result x \<longleftrightarrow> x = None \<or> (\<exists>v. x = Some (set (split_on CHR '' '' v)))"

text \<open>
  Counting in a trace: calls of \<open>onScreenshot\<close>, constructions of a \<open>Behavior\<close>, and
  whether every \<open>onScreenshot\<close> is followed at once by the construction and the start of a
  Behavior. In a schedule: the load events, and whether some message has the id \<open>null\<close>.
\<close>

fun is_screenshot :: "event \<Rightarrow> bool" where
  "is_screenshot (OnScreenshot p) = True"
| "is_screenshot e = False"

fun is_behavior_new :: "event \<Rightarrow> bool" where
  "is_behavior_new (BehaviorNew u) = True"
| "is_behavior_new e = False"

definition screenshots :: "event list \<Rightarrow> nat" where
  "screenshots evs = length (filter is_screenshot evs)"

definition behaviors_made :: "event list \<Rightarrow> nat" where
  "behaviors_made evs = length (filter is_behavior_new evs)"

fun screenshot_then_behavior :: "event list \<Rightarrow> bool" where
  "screenshot_then_behavior [] = True"
| "screenshot_then_behavior (e # es) =
     (if is_screenshot e
      then (case es of
              a # b # rest \<Rightarrow> is_behavior_new a \<and> b = BehaviorStart \<and> screenshot_then_behavior rest
            | _ \<Rightarrow> False)
      else screenshot_then_behavior es)"

fun is_load_event :: "ws_event \<Rightarrow> bool" where
  "is_load_event (WsMessage m) = has_method m ''Page.loadEventFired''"
| "is_load_event e = False"

fun has_null_id :: "ws_event \<Rightarrow> bool" where
  "has_null_id (WsMessage m) = (map_of m ''id'' = Some JNull)"
| "has_null_id e = False"

definition load_events :: "tick list \<Rightarrow> nat" where
  "load_events ticks = length (filter is_load_event (concat (map incoming ticks)))"

definition null_ids :: "tick list \<Rightarrow> bool" where
  "null_ids ticks = list_ex has_null_id (concat (map incoming ticks))"

definition screenshot_pending :: "Browser \<Rightarrow> nat" where
  "screenshot_pending s = (if waiting_on_screenshot_msg_id s = None then 0 else 1)"

definition quiet :: "event list \<Rightarrow> bool" where
  "quiet evs \<longleftrightarrow> (\<forall>e \<in> set evs. \<not> is_screenshot e \<and> \<not> is_behavior_new e)"

text \<open>
  What a step may do to the screenshot slot and to the two counts: \<open>n\<close> is the number of
  load events it has seen.
\<close>

definition shot_step :: "nat \<Rightarrow> Browser \<Rightarrow> Browser \<times> event list \<Rightarrow> bool" where
  "shot_step n s r \<longleftrightarrow>
     behaviors_made (snd r) + screenshot_pending (fst r) \<le> n + screenshot_pending s \<and>
     screenshots (snd r) \<le> behaviors_made (snd r) \<and>
     screenshot_then_behavior (snd r)"

text \<open>A step that leaves the screenshot slot alone and calls neither.\<close>

definition keeps_shot :: "Browser \<Rightarrow> Browser \<Rightarrow> event list \<Rightarrow> bool" where
  "keeps_shot s s' evs \<longleftrightarrow>
     waiting_on_screenshot_msg_id s' = waiting_on_screenshot_msg_id s \<and> quiet evs"

text \<open>
  The escalation rule of \<open>stop\<close>, in the spec's words, for rounds that all find the process
  alive inside the 300 seconds (\<open>alive_rounds\<close>): every round polls, and when more than 10
  seconds have passed since the last termination signal it sends the signal again, which
  is the last signal from then on. \<open>round_events\<close> is the trace of such rounds after a last
  signal at the given time, \<open>last_signal\<close> the time of the last signal when they are over.
\<close>

fun round_events :: "nat \<Rightarrow> real \<Rightarrow> stop_tick list \<Rightarrow> event list" where
  "round_events pid last_signal_at [] = []"
| "round_events pid last_signal_at (q # qs) =
     (if t_check q - last_signal_at > 10
      then Poll pid # Terminate pid # round_events pid (t_mark q) qs
      else Poll pid # round_events pid last_signal_at qs)"

definition last_signal :: "real \<Rightarrow> stop_tick list \<Rightarrow> real" where
  "last_signal t0 qs = foldl (\<lambda>l q. if t_check q - l > 10 then t_mark q else l) t0 qs"

definition alive_rounds :: "real \<Rightarrow> stop_tick list \<Rightarrow> bool" where
  "alive_rounds t0 qs \<longleftrightarrow> (\<forall>q \<in> set qs. t_while q - t0 < 300 \<and> status q = None)"

text \<open>
  A chrome on port 9200 and two answers of its \<open>/json\<close> endpoint for the worked examples. In
  the second the first \<open>about:blank\<close> target has no \<open>webSocketDebuggerUrl\<close>, as a target
  with a client attached has none.
\<close>

definition example_chrome :: Chrome where
  "example_chrome =
     Chrome_init 9200 ''chromium-browser'' ''/tmp/w'' ''/tmp/w/chrome-user-data'' None False"

definition example_os :: os where
  "example_os = \<lparr>procs = {}, dirs = {''/tmp/w''}\<rparr>"

definition example_targets :: json where
  "example_targets =
     JArr [JObj [(''url'', JStr ''chrome://newtab/'')],
           JObj [(''url'', JStr ''about:blank''),
                 (''webSocketDebuggerUrl'', JStr ''ws://localhost:9200/devtools/page/1'')],
           JObj [(''url'', JStr ''about:blank''),
                 (''webSocketDebuggerUrl'', JStr ''ws://localhost:9200/devtools/page/2'')]]"

definition example_targets_hidden :: json where
  "example_targets_hidden =
     JArr [JObj [(''url'', JStr ''about:blank'')],
           JObj [(''url'', JStr ''about:blank''),
                 (''webSocketDebuggerUrl'', JStr ''ws://localhost:9200/devtools/page/2'')]]"

section \<open>The pool: partition, release, shutdown\<close>

lemma abort_idem: "abort_browse_page (abort_browse_page b) = abort_browse_page b"
  by (simp add: abort_browse_page_def)

lemma foldl_abort_at_length: "length (foldl abort_at heap order) = length heap"
  by (induction order arbitrary: heap) (simp_all add: abort_at_def)

lemma foldl_abort_at_nth:
  "a < length heap \<Longrightarrow>
   foldl abort_at heap order ! a =
     (if a \<in> set order then abort_browse_page (heap ! a) else heap ! a)"
proof (induction order arbitrary: heap)
  case Nil
  then show ?case by simp
next
  case (Cons x xs)
  have len: "a < length (abort_at heap x)" using Cons.prems by (simp add: abort_at_def)
  show ?case
    using Cons.IH [OF len] Cons.prems
    by (auto simp: abort_at_def nth_list_update abort_idem)
qed

lemma init_step_pair:
  "init_step exe prx ice (heap, av) i =
     (heap @ [Browser_init (BASE_PORT + i) exe prx ice], insert (length heap) av)"
  by (simp add: init_step_def)

lemma foldl_init_step:
  "foldl (init_step exe prx ice) (heap, av) xs =
     (heap @ map (\<lambda>i. Browser_init (BASE_PORT + i) exe prx ice) xs,
      av \<union> {length heap ..< length heap + length xs})"
proof (induction xs arbitrary: heap av)
  case Nil
  then show ?case by simp
next
  case (Cons x xs)
  have "insert (length heap) av \<union> {Suc (length heap) ..< Suc (length heap + length xs)} =
        av \<union> {length heap ..< Suc (length heap + length xs)}"
    by auto
  then show ?case
    by (simp add: Cons.IH init_step_pair)
qed

lemma BrowserPool_init_eq:
  "BrowserPool_init sz exe prx ice heap =
     (\<lparr>available = {length heap ..< length heap + nat sz}, in_use = {}, lock_held = False\<rparr>,
      heap @ map (\<lambda>i. Browser_init (BASE_PORT + i) exe prx ice) [0..sz - 1])"
  by (simp add: BrowserPool_init_def foldl_init_step)

lemma acquire_eq:
  "acquire pick q =
     (if lock_held q then None
      else if available q = {} then Some (q, Inl KeyError)
      else Some (q\<lparr>available := available q - {pick (available q)},
                     in_use := insert (pick (available q)) (in_use q)\<rparr>,
                 Inr (pick (available q))))"
  by (simp add: acquire_def with_lock_def acquire_body_def Let_def)

lemma release_eq:
  "release b q =
     (if lock_held q then None
      else if b \<in> in_use q
        then Some (q\<lparr>available := insert b (available q), in_use := in_use q - {b}\<rparr>, Inr ())
        else Some (q\<lparr>available := insert b (available q)\<rparr>, Inl KeyError))"
  by (simp add: release_def with_lock_def release_body_def Let_def)

lemma do_call_partition:
  assumes inv: "pool_partition D p" and fin: "finite D" and free: "\<not> lock_held p"
    and pick: "\<forall>S. finite S \<longrightarrow> S \<noteq> {} \<longrightarrow> pick S \<in> S"
    and arg: "\<forall>b. c = Release b \<longrightarrow> b \<in> D"
  shows "\<exists>p' heap'. do_call pick c (p, heap) = Some (p', heap') \<and> pool_partition D p' \<and>
           \<not> lock_held p'"
proof (cases c)
  case Acquire
  show ?thesis
  proof (cases "available p = {}")
    case True
    with Acquire inv free show ?thesis by (simp add: acquire_eq)
  next
    case False
    have "finite (available p)" using inv fin by (auto simp: pool_partition_def)
    with pick False have "pick (available p) \<in> available p" by blast
    with Acquire inv free False show ?thesis
      by (auto simp: acquire_eq pool_partition_def)
  qed
next
  case (Release b)
  with arg have "b \<in> D" by simp
  show ?thesis
  proof (cases "b \<in> in_use p")
    case True
    with Release inv free show ?thesis
      by (auto simp: release_eq pool_partition_def)
  next
    case False
    with \<open>b \<in> D\<close> inv have "b \<in> available p" by (auto simp: pool_partition_def)
    then have "insert b (available p) = available p" by auto
    with Release inv free False show ?thesis
      by (simp add: release_eq pool_partition_def)
  qed
next
  case (ShutdownNow order)
  with inv free show ?thesis by (simp add: shutdown_now_def)
qed

lemma run_calls_partition:
  assumes pick: "\<forall>S. finite S \<longrightarrow> S \<noteq> {} \<longrightarrow> pick S \<in> S" and fin: "finite D"
  shows "pool_partition D p \<Longrightarrow> \<not> lock_held p \<Longrightarrow> \<forall>b. Release b \<in> set cs \<longrightarrow> b \<in> D \<Longrightarrow>
         \<exists>p' heap'. run_calls pick cs (p, heap) = Some (p', heap') \<and> pool_partition D p' \<and>
           \<not> lock_held p'"
proof (induction cs arbitrary: p heap)
  case Nil
  then show ?case by simp
next
  case (Cons c cs)
  have "\<forall>b. c = Release b \<longrightarrow> b \<in> D" using Cons.prems(3) by simp
  from do_call_partition [OF Cons.prems(1) fin Cons.prems(2) pick this, of heap]
  obtain p1 h1 where step: "do_call pick c (p, heap) = Some (p1, h1)"
    and inv1: "pool_partition D p1" and free1: "\<not> lock_held p1" by blast
  have "\<forall>b. Release b \<in> set cs \<longrightarrow> b \<in> D" using Cons.prems(3) by simp
  from Cons.IH [OF inv1 free1 this, of h1] step show ?case by simp
qed

text \<open>
  Claim C1, as the code has it. A pool built by \<open>BrowserPool.__init__\<close> on \<open>size\<close>
  drivers, after any sequence of \<open>acquire\<close>, \<open>release\<close> and \<open>shutdown_now\<close> calls in
  which every released driver is one of the pool's own: no call blocks, the two sets are
  disjoint, their union is the set of drivers the constructor made, its cardinality is the
  size (0 for a negative size), and the lock is free again. \<open>acquire\<close> moves the driver that
  \<open>pop\<close> chose from available to in-use and \<open>release\<close> of a driver in use moves it
  back; both wait while the lock is held and run their body under it.
\<close>

theorem pool_partition_invariant:
  assumes pick: "\<forall>S. finite S \<longrightarrow> S \<noteq> {} \<longrightarrow> pick S \<in> S"
    and args: "\<forall>b. Release b \<in> set calls \<longrightarrow> b \<in> {length heap ..< length heap + nat sz}"
  shows "(\<exists>p heap'. run_calls pick calls (BrowserPool_init sz exe prx ice heap) = Some (p, heap') \<and>
            pool_partition {length heap ..< length heap + nat sz} p \<and> P1 (max 0 sz) p \<and>
            \<not> lock_held p) \<and>
         acquire pick q =
           (if lock_held q then None
            else if available q = {} then Some (q, Inl KeyError)
            else Some (q\<lparr>available := available q - {pick (available q)},
                           in_use := insert (pick (available q)) (in_use q)\<rparr>,
                       Inr (pick (available q)))) \<and>
         release b q =
           (if lock_held q then None
            else if b \<in> in_use q
              then Some (q\<lparr>available := insert b (available q), in_use := in_use q - {b}\<rparr>,
                         Inr ())
              else Some (q\<lparr>available := insert b (available q)\<rparr>, Inl KeyError))"
proof -
  let ?D = "{length heap ..< length heap + nat sz}"
  let ?p0 = "\<lparr>available = ?D, in_use = {}, lock_held = False\<rparr>"
  have inv0: "pool_partition ?D ?p0" by (simp add: pool_partition_def)
  have free0: "\<not> lock_held ?p0" by simp
  have fin: "finite ?D" by simp
  from run_calls_partition [OF pick fin inv0 free0 args]
  obtain p heap' where run: "run_calls pick calls (BrowserPool_init sz exe prx ice heap) = Some (p, heap')"
    and inv: "pool_partition ?D p" and free: "\<not> lock_held p"
    unfolding BrowserPool_init_eq by blast
  have "P1 (max 0 sz) p" using inv by (auto simp: pool_partition_def P1_def)
  with run inv free show ?thesis by (simp add: acquire_eq release_eq)
qed

theorem pool_partition_invariant_witness:
  "\<exists>p heap'. run_calls Min [Acquire, Acquire, Acquire, Release 0, Acquire, ShutdownNow [0, 1]]
       (BrowserPool_init 2 ''chromium-browser'' None False []) = Some (p, heap') \<and>
     pool_partition {0 ..< 2} p \<and> P1 2 p \<and> \<not> lock_held p"
proof -
  have pick: "\<forall>S::nat set. finite S \<longrightarrow> S \<noteq> {} \<longrightarrow> Min S \<in> S" by simp
  have args: "\<forall>b. Release b \<in> set [Acquire, Acquire, Acquire, Release 0, Acquire, ShutdownNow [0, 1]]
      \<longrightarrow> b \<in> {length ([]::Browser list) ..< length ([]::Browser list) + nat 2}"
    by simp
  have D: "{length ([]::Browser list) ..< length ([]::Browser list) + nat 2} = {0 ..< 2}"
    by (simp add: numeral_2_eq_2)
  have m: "max 0 (2::int) = 2" by simp
  from pool_partition_invariant [OF pick args, of "''chromium-browser''" None False, THEN conjunct1]
  show ?thesis unfolding D m .
qed

text \<open>
  Releasing a browser that the pool never made (address 0, built before the pool) leaves it in
  the available set: two members in a pool of size one.
\<close>

theorem pool_partition_counterexample:
  "map_option fst (run_calls Min [Release 0]
     (BrowserPool_init 1 ''chromium-browser'' None False
        [Browser_init 9222 ''chromium-browser'' None False])) =
     Some \<lparr>available = {0, 1}, in_use = {}, lock_held = False\<rparr> \<and>
   \<not> P1 1 \<lparr>available = {0, 1}, in_use = {}, lock_held = False\<rparr>"
  by (simp add: BrowserPool_init_eq release_eq P1_def)

text \<open>
  Claim C9, as the code has it. \<open>release\<close> of a driver that is not in use raises
  \<open>KeyError\<close> after the driver was added to the available set. The pool is changed by that
  exactly when the driver was not available before (it is not one of the pool's drivers while
  the partition holds), and then the union of the two sets has one member more.
\<close>

theorem release_not_in_use:
  assumes "b \<notin> in_use p" and "\<not> lock_held p"
  shows "release b p = Some (p\<lparr>available := insert b (available p)\<rparr>, Inl KeyError) \<and>
         (p\<lparr>available := insert b (available p)\<rparr> = p \<longleftrightarrow> b \<in> available p) \<and>
         (b \<notin> available p \<and> finite (available p \<union> in_use p) \<longrightarrow>
            card (insert b (available p) \<union> in_use p) = Suc (card (available p \<union> in_use p)))"
proof -
  have eq: "(p\<lparr>available := insert b (available p)\<rparr> = p) = (b \<in> available p)"
  proof
    assume "p\<lparr>available := insert b (available p)\<rparr> = p"
    then have "available (p\<lparr>available := insert b (available p)\<rparr>) = available p" by simp
    then show "b \<in> available p" by auto
  next
    assume "b \<in> available p"
    then have "insert b (available p) = available p" by auto
    then show "p\<lparr>available := insert b (available p)\<rparr> = p" by simp
  qed
  from assms eq show ?thesis by (simp add: release_eq)
qed

theorem release_not_in_use_witness:
  "release 0 \<lparr>available = {1}, in_use = {}, lock_held = False\<rparr> =
     Some (\<lparr>available = {0, 1}, in_use = {}, lock_held = False\<rparr>, Inl KeyError) \<and>
   card ({0, 1::nat} \<union> {}) = Suc (card ({1::nat} \<union> {}))"
  using release_not_in_use [of 0 "\<lparr>available = {1}, in_use = {}, lock_held = False\<rparr>"]
  by simp

text \<open>
  Releasing twice: after \<open>acquire\<close> and \<open>release\<close> on a pool of size one, a second
  \<open>release\<close> raises \<open>KeyError\<close> and leaves the pool as it was, P1 intact.
\<close>

theorem release_twice_counterexample:
  "map_option fst (run_calls Min [Acquire, Release 0]
      (BrowserPool_init 1 ''chromium-browser'' None False [])) =
     Some \<lparr>available = {0}, in_use = {}, lock_held = False\<rparr> \<and>
   release 0 \<lparr>available = {0}, in_use = {}, lock_held = False\<rparr> =
     Some (\<lparr>available = {0}, in_use = {}, lock_held = False\<rparr>, Inl KeyError) \<and>
   P1 1 \<lparr>available = {0}, in_use = {}, lock_held = False\<rparr>"
  by (simp add: BrowserPool_init_eq acquire_eq release_eq P1_def)

text \<open>
  Claim C10. \<open>shutdown_now\<close> hands the pool back unchanged, the lock field included,
  whether or not the lock is held; every browser in use has gone through
  \<open>abort_browse_page\<close> and every other browser is untouched. It is a call that never
  blocks: as a call of a client it always has a result.
\<close>

theorem shutdown_now_frame:
  assumes "set order = in_use p" and "a < length heap"
  shows "fst (shutdown_now order p heap) = p \<and>
         length (snd (shutdown_now order p heap)) = length heap \<and>
         snd (shutdown_now order p heap) ! a =
           (if a \<in> in_use p then abort_browse_page (heap ! a) else heap ! a) \<and>
         do_call pick (ShutdownNow order) (p, heap) = Some (shutdown_now order p heap)"
  using assms by (simp add: shutdown_now_def foldl_abort_at_length foldl_abort_at_nth)

theorem shutdown_now_frame_witness:
  "shutdown_now [1] \<lparr>available = {0}, in_use = {1}, lock_held = True\<rparr>
     [Browser_init 9200 ''chromium-browser'' None False,
      Browser_init 9201 ''chromium-browser'' None False] =
     (\<lparr>available = {0}, in_use = {1}, lock_held = True\<rparr>,
      [Browser_init 9200 ''chromium-browser'' None False,
       abort_browse_page (Browser_init 9201 ''chromium-browser'' None False)])"
proof -
  let ?p = "\<lparr>available = {0}, in_use = {1::nat}, lock_held = True\<rparr>"
  let ?h = "[Browser_init 9200 ''chromium-browser'' None False,
      Browser_init 9201 ''chromium-browser'' None False]"
  have h1: "set [1::nat] = in_use ?p" by simp
  have h2: "1 < length ?h" by simp
  have h3: "0 < length ?h" by simp
  from shutdown_now_frame [OF h1 h2] shutdown_now_frame [OF h1 h3]
  show ?thesis
    by (simp add: prod_eq_iff list_eq_iff_nth_eq less_Suc_eq)
qed

section \<open>The driver: what a visit keeps, the interval function\<close>

lemma fst_send_all: "fst (send_all cmds s) = s\<lparr>command_id := command_id s + int (length cmds)\<rparr>"
proof (induction cmds arbitrary: s)
  case Nil
  then show ?case by simp
next
  case (Cons x xs)
  obtain m ps where x: "x = (m, ps)" by (cases x)
  obtain s2 evs where r: "send_all xs (s\<lparr>command_id := command_id s + 1\<rparr>) = (s2, evs)"
    by (cases "send_all xs (s\<lparr>command_id := command_id s + 1\<rparr>)")
  with Cons.IH [of "s\<lparr>command_id := command_id s + 1\<rparr>"]
  have "s2 = s\<lparr>command_id := command_id s + 1 + int (length xs)\<rparr>" by simp
  then show ?case
    by (simp add: x send_to_chrome_def r add.assoc)
qed

lemma fst_visit_page: "fst (visit_page s) = s\<lparr>command_id := command_id s + 7\<rparr>"
  unfolding visit_page_def fst_send_all by simp

text \<open>
  A message changes the command counter, the three slots, the behavior and the outlinks; the
  fields of \<open>same_frame\<close> it leaves alone.
\<close>

lemma same_frame_refl: "same_frame s s"
  by (simp add: same_frame_def)

lemma same_frame_upd:
  "same_frame s (s'\<lparr>command_id := a\<rparr>) = same_frame s s'"
  "same_frame s (s'\<lparr>waiting_on_screenshot_msg_id := b\<rparr>) = same_frame s s'"
  "same_frame s (s'\<lparr>waiting_on_outlinks_msg_id := c\<rparr>) = same_frame s s'"
  "same_frame s (s'\<lparr>waiting_on_document_url_msg_id := e\<rparr>) = same_frame s s'"
  "same_frame s (s'\<lparr>outlinks := f\<rparr>) = same_frame s s'"
  "same_frame s (s'\<lparr>behavior := g\<rparr>) = same_frame s s'"
  by (simp_all add: same_frame_def)

lemma request_frame: "same_frame s (fst (handle_request_will_be_sent m s))"
  by (simp add: handle_request_will_be_sent_def Let_def same_frame_refl split: sum.splits)

lemma load_frame: "same_frame s (fst (handle_load_event_fired s))"
  by (simp add: handle_load_event_fired_def send_to_chrome_def same_frame_refl same_frame_upd)

lemma console_frame: "same_frame s (fst (handle_console_message m s))"
  by (simp add: handle_console_message_def same_frame_refl split: sum.splits)

lemma paused_frame: "same_frame s (fst (handle_debugger_paused m s))"
  by (simp add: handle_debugger_paused_def send_to_chrome_def same_frame_refl same_frame_upd
      split: sum.splits)

lemma result_frame: "same_frame s (fst (handle_result d w m s))"
  by (simp add: handle_result_def start_behavior_def same_frame_refl same_frame_upd
      split: sum.splits)

lemma handle_message_frame: "same_frame s (fst (handle_message d w m s))"
  by (simp add: handle_message_def request_frame load_frame console_frame paused_frame
      result_frame same_frame_refl)

lemma ws_step_abort:
  "abort_browse_page_flag s \<Longrightarrow> abort_browse_page_flag (fst (ws_step d w e s))"
  using handle_message_frame [of s d w]
  by (cases e) (simp_all add: fst_visit_page abort_browse_page_def same_frame_def case_prod_beta)

lemma ws_step_start_time: "start_time (fst (ws_step d w e s)) = start_time s"
  using handle_message_frame [of s d w]
  by (cases e) (simp_all add: fst_visit_page abort_browse_page_def same_frame_def case_prod_beta)

lemma ws_steps_abort:
  "abort_browse_page_flag s \<Longrightarrow> abort_browse_page_flag (fst (ws_steps d w es s))"
proof (induction es arbitrary: s)
  case Nil
  then show ?case by simp
next
  case (Cons e es)
  from ws_step_abort [OF Cons.prems, of d w e] Cons.IH [of "fst (ws_step d w e s)"]
  show ?case by (simp add: case_prod_beta)
qed

lemma ws_steps_start_time: "start_time (fst (ws_steps d w es s)) = start_time s"
proof (induction es arbitrary: s)
  case Nil
  then show ?case by simp
next
  case (Cons e es)
  from ws_step_start_time [of d w e s] Cons.IH [of "fst (ws_step d w e s)"]
  show ?case by (simp add: case_prod_beta)
qed

lemma interval_abort:
  "abort_browse_page_flag (fst (browse_interval_func fin t s)) = abort_browse_page_flag s"
  by (simp add: browse_interval_func_def send_to_chrome_def)

lemma interval_start_time: "start_time (fst (browse_interval_func fin t s)) = start_time s"
  by (simp add: browse_interval_func_def send_to_chrome_def)

lemma browse_loop_abort:
  "abort_browse_page_flag s \<Longrightarrow> abort_browse_page_flag (fst (browse_loop d w ts s))"
proof (induction ts arbitrary: s)
  case Nil
  then show ?case by simp
next
  case (Cons t ts)
  obtain s1 ev1 where a: "ws_steps d w (incoming t) s = (s1, ev1)"
    by (cases "ws_steps d w (incoming t) s")
  obtain s2 ev2 r where b: "browse_interval_func (finished t) (clock t) s1 = (s2, ev2, r)"
    by (cases "browse_interval_func (finished t) (clock t) s1")
  obtain s3 ev3 out where c: "browse_loop d w ts s2 = (s3, ev3, out)"
    by (cases "browse_loop d w ts s2")
  have "abort_browse_page_flag s1" using ws_steps_abort [OF Cons.prems, of d w "incoming t"] a by simp
  then have s2: "abort_browse_page_flag s2" using interval_abort [of "finished t" "clock t" s1] b by simp
  then have "abort_browse_page_flag s3" using Cons.IH [of s2] c by simp
  with s2 show ?case by (simp add: a b c split: sum.splits)
qed

lemma browse_loop_start_time: "start_time (fst (browse_loop d w ts s)) = start_time s"
proof (induction ts arbitrary: s)
  case Nil
  then show ?case by simp
next
  case (Cons t ts)
  obtain s1 ev1 where a: "ws_steps d w (incoming t) s = (s1, ev1)"
    by (cases "ws_steps d w (incoming t) s")
  obtain s2 ev2 r where b: "browse_interval_func (finished t) (clock t) s1 = (s2, ev2, r)"
    by (cases "browse_interval_func (finished t) (clock t) s1")
  obtain s3 ev3 out where c: "browse_loop d w ts s2 = (s3, ev3, out)"
    by (cases "browse_loop d w ts s2")
  have "start_time s1 = start_time s" using ws_steps_start_time [of d w "incoming t" s] a by simp
  then have s2: "start_time s2 = start_time s"
    using interval_start_time [of "finished t" "clock t" s1] b by simp
  then have "start_time s3 = start_time s" using Cons.IH [of s2] c by simp
  with s2 show ?case by (simp add: a b c split: sum.splits)
qed

lemma browse_loop_append:
  "browse_loop d w (pre @ rest) s =
     (case browse_loop d w pre s of
        (s1, ev1, Running) \<Rightarrow> (case browse_loop d w rest s1 of (s2, ev2, r) \<Rightarrow> (s2, ev1 @ ev2, r))
      | (s1, ev1, r) \<Rightarrow> (s1, ev1, r))"
proof (induction pre arbitrary: s)
  case Nil
  then show ?case by (simp add: case_prod_beta)
next
  case (Cons t pre)
  obtain s1 ev1 where a: "ws_steps d w (incoming t) s = (s1, ev1)"
    by (cases "ws_steps d w (incoming t) s")
  obtain s2 ev2 r where b: "browse_interval_func (finished t) (clock t) s1 = (s2, ev2, r)"
    by (cases "browse_interval_func (finished t) (clock t) s1")
  obtain s3 ev3 out where c: "browse_loop d w pre s2 = (s3, ev3, out)"
    by (cases "browse_loop d w pre s2")
  obtain s4 ev4 out4 where e: "browse_loop d w rest s3 = (s4, ev4, out4)"
    by (cases "browse_loop d w rest s3")
  show ?case
    by (cases out) (simp_all add: a b c e Cons.IH split: sum.splits)
qed

lemma interval_table:
  "browse_interval_func fin tm q =
     (if websock q \<noteq> Some True then (q, [], Inl (BrowsingException (websocket_url q)))
      else if behavior q \<noteq> None \<and> fin \<and> outlinks q \<noteq> None \<and> outlinks q \<noteq> Some {}
        then (q, [], Inr (Some True))
      else if behavior q \<noteq> None \<and> fin \<and>
              (waiting_on_outlinks_msg_id q = None \<or> waiting_on_outlinks_msg_id q = Some 0)
        then (q\<lparr>command_id := command_id q + 1,
                 waiting_on_outlinks_msg_id := Some (command_id q)\<rparr>,
              [Send (command_id q) ''Runtime.evaluate''
                 (Some (JObj [(''expression'', JStr outlinks_expression)]))],
              Inr (Some False))
      else if behavior q \<noteq> None \<and> fin then (q, [], Inr None)
      else if tm - start_time q > HARD_TIMEOUT_SECONDS then (q, [], Inr (Some True))
      else if abort_browse_page_flag q then (q, [], Inl BrowsingAborted)
      else (q, [], Inr None))"
  by (auto simp: browse_interval_func_def send_to_chrome_def)

lemma tick_aborts:
  assumes flag: "abort_browse_page_flag s"
    and reader: "ws_steps d w (incoming t) s = (s1, ev1)"
    and conn: "websock s1 = Some True"
    and unfin: "behavior s1 = None \<or> \<not> finished t"
    and intime: "clock t - start_time s \<le> HARD_TIMEOUT_SECONDS"
  shows "browse_loop d w (t # ts) s = (s1, ev1, Raised BrowsingAborted)"
proof -
  have f1: "abort_browse_page_flag s1"
    using ws_steps_abort [OF flag, of d w "incoming t"] reader by simp
  have t1: "start_time s1 = start_time s"
    using ws_steps_start_time [of d w "incoming t" s] reader by simp
  have "browse_interval_func (finished t) (clock t) s1 = (s1, [], Inl BrowsingAborted)"
    using f1 t1 conn unfin intime by (auto simp: interval_table)
  then show ?thesis by (simp add: reader)
qed

lemma tick_times_out:
  assumes reader: "ws_steps d w (incoming t) s = (s1, ev1)"
    and conn: "websock s1 = Some True"
    and unfin: "behavior s1 = None \<or> \<not> finished t"
    and late: "clock t - start_time s > HARD_TIMEOUT_SECONDS"
  shows "browse_loop d w (t # ts) s = (s1, ev1, Returned (outlinks s1))"
proof -
  have t1: "start_time s1 = start_time s"
    using ws_steps_start_time [of d w "incoming t" s] reader by simp
  have "browse_interval_func (finished t) (clock t) s1 = (s1, [], Inr (Some True))"
    using t1 conn unfin late by (auto simp: interval_table)
  then show ?thesis by (simp add: reader)
qed

lemma browse_page_Running:
  assumes "browse_page d w u rq sh ch t0 pre s = (s1, ev1, Running)"
  shows "websocket_url s \<noteq> None \<and>
         browse_loop d w pre ((reset_visit u rq sh ch s)\<lparr>websock := Some False, start_time := t0\<rparr>) =
           (s1, ev1, Running)"
proof -
  let ?s0 = "(reset_visit u rq sh ch s)\<lparr>websock := Some False, start_time := t0\<rparr>"
  have u: "websocket_url (reset_visit u rq sh ch s) = websocket_url s"
    by (simp add: reset_visit_def)
  obtain s' evs r where l: "browse_loop d w pre ?s0 = (s', evs, r)"
    by (cases "browse_loop d w pre ?s0")
  from assms show ?thesis
    by (cases r)
      (auto simp: browse_page_def Let_def u l case_prod_beta split: if_splits)
qed

lemma browse_page_after:
  assumes pre: "browse_page d w u rq sh ch t0 pre s = (s1, ev1, Running)"
    and nxt: "browse_loop d w (t # post) s1 = (s2, ev2, r)"
    and ended: "r \<noteq> Running"
  shows "browse_page d w u rq sh ch t0 (pre @ t # post) s =
           (fst (browse_finally s2), ev1 @ ev2 @ snd (browse_finally s2), r)"
proof -
  let ?s0 = "(reset_visit u rq sh ch s)\<lparr>websock := Some False, start_time := t0\<rparr>"
  from browse_page_Running [OF pre]
  have u: "websocket_url s \<noteq> None" and l: "browse_loop d w pre ?s0 = (s1, ev1, Running)"
    by simp_all
  have u': "websocket_url (reset_visit u rq sh ch s) \<noteq> None"
    using u by (simp add: reset_visit_def)
  have "browse_loop d w (pre @ t # post) ?s0 = (s2, ev1 @ ev2, r)"
    by (simp add: browse_loop_append l nxt del: browse_loop.simps)
  with ended u' show ?thesis
    by (cases r) (auto simp add: browse_page_def Let_def case_prod_beta simp del: browse_loop.simps)
qed

lemma browse_page_start_time:
  assumes "browse_page d w u rq sh ch t0 pre s = (s1, ev1, Running)"
  shows "start_time s1 = t0"
proof -
  let ?s0 = "(reset_visit u rq sh ch s)\<lparr>websock := Some False, start_time := t0\<rparr>"
  from browse_page_Running [OF assms] have "browse_loop d w pre ?s0 = (s1, ev1, Running)" by simp
  with browse_loop_start_time [of d w pre ?s0] show ?thesis by simp
qed

lemmas run_defs =
  browse_page_def reset_visit_def example_b64decode_def example_is_waiting_def
  example_browser_def Browser_init_def visit_page_def send_to_chrome_def handle_message_def
  has_method_def handle_request_will_be_sent_def handle_load_event_fired_def
  handle_console_message_def handle_debugger_paused_def handle_result_def start_behavior_def
  browse_interval_func_def browse_finally_def abort_browse_page_def HARD_TIMEOUT_SECONDS_def
  load_event_def screenshot_reply_def value_reply_def result_value_def bind_err_def Let_def




text \<open>
  The behavior has finished and the outlink query is out when the abort arrives: three
  wake-ups later the visit is still in its loop.
\<close>

lemma abort_while_query_pending:
  "snd (snd (browse_page example_b64decode example_is_waiting ''http://example/'' True True True 0
     [\<lparr>incoming = [WsOpen, WsMessage load_event, WsMessage (screenshot_reply 8)],
        clock = 0.5, finished = True\<rparr>,
      \<lparr>incoming = [AbortCall], clock = 1, finished = True\<rparr>,
      \<lparr>incoming = [], clock = 1.5, finished = True\<rparr>,
      \<lparr>incoming = [], clock = 2, finished = True\<rparr>] example_browser)) = Running \<and>
   abort_browse_page_flag (fst (browse_page example_b64decode example_is_waiting
     ''http://example/'' True True True 0
     [\<lparr>incoming = [WsOpen, WsMessage load_event, WsMessage (screenshot_reply 8)],
        clock = 0.5, finished = True\<rparr>,
      \<lparr>incoming = [AbortCall], clock = 1, finished = True\<rparr>,
      \<lparr>incoming = [], clock = 1.5, finished = True\<rparr>,
      \<lparr>incoming = [], clock = 2, finished = True\<rparr>] example_browser))"
  by (simp add: run_defs)

text \<open>
  Claim C3, as the code has it. A visit that is still in its loop and then wakes up with the
  websocket connected, the behavior absent or not finished and more than 1200 seconds gone
  since its start ends there: \<open>browse_page\<close> closes the socket and returns the value of
  \<open>_outlinks\<close>, which is \<open>None\<close> when no outlinks were captured.
\<close>

theorem hard_timeout_returns:
  assumes pre: "browse_page d w u rq sh ch t0 pre s = (s1, ev1, Running)"
    and reader: "ws_steps d w (incoming t) s1 = (s2, ev2)"
    and conn: "websock s2 = Some True"
    and unfin: "behavior s2 = None \<or> \<not> finished t"
    and late: "clock t - t0 > HARD_TIMEOUT_SECONDS"
  shows "browse_page d w u rq sh ch t0 (pre @ t # post) s =
           (s2\<lparr>websock := Some False, behavior := None\<rparr>, ev1 @ ev2 @ [WebsockClose],
            Returned (outlinks s2))"
proof -
  have "start_time s1 = t0" by (rule browse_page_start_time [OF pre])
  with late have late': "clock t - start_time s1 > HARD_TIMEOUT_SECONDS" by simp
  have nxt: "browse_loop d w (t # post) s1 = (s2, ev2, Returned (outlinks s2))"
    by (rule tick_times_out [OF reader conn unfin late'])
  from browse_page_after [OF pre nxt] conn show ?thesis
    by (simp add: browse_finally_def)
qed

theorem hard_timeout_returns_witness:
  "snd (snd (browse_page example_b64decode example_is_waiting ''http://example/'' True True True 0
     ([\<lparr>incoming = [WsOpen, WsMessage load_event, WsMessage (screenshot_reply 8)],
         clock = 0.5, finished = False\<rparr>]
      @ \<lparr>incoming = [], clock = 1200.5, finished = False\<rparr> # []) example_browser)) =
   Returned None"
proof -
  let ?pre = "[\<lparr>incoming = [WsOpen, WsMessage load_event, WsMessage (screenshot_reply 8)],
         clock = 0.5, finished = False\<rparr>]"
  let ?t = "\<lparr>incoming = [], clock = 1200.5, finished = False\<rparr>"
  let ?r = "browse_page example_b64decode example_is_waiting ''http://example/'' True True True 0
     ?pre example_browser"
  have run: "snd (snd ?r) = Running" by (simp add: run_defs)
  then have pre: "?r = (fst ?r, fst (snd ?r), Running)" by (simp add: prod_eq_iff)
  have reader: "ws_steps example_b64decode example_is_waiting (incoming ?t) (fst ?r) = (fst ?r, [])"
    by simp
  have conn: "websock (fst ?r) = Some True" by (simp add: run_defs)
  have unfin: "behavior (fst ?r) = None \<or> \<not> finished ?t" by simp
  have late: "clock ?t - 0 > HARD_TIMEOUT_SECONDS" by (simp add: HARD_TIMEOUT_SECONDS_def)
  have none: "outlinks (fst ?r) = None" by (simp add: run_defs)
  from hard_timeout_returns [OF pre reader conn unfin late, of "[]"] none
  show ?thesis by simp
qed

text \<open>The value returned on a timeout with nothing captured is \<open>None\<close>, not the empty set.\<close>

theorem hard_timeout_counterexample:
  "snd (snd (browse_page example_b64decode example_is_waiting ''http://example/'' True True True 0
     [\<lparr>incoming = [WsOpen], clock = 0.5, finished = False\<rparr>,
      \<lparr>incoming = [], clock = 1201, finished = False\<rparr>] example_browser)) = Returned None \<and>
   snd (snd (browse_page example_b64decode example_is_waiting ''http://example/'' True True True 0
     [\<lparr>incoming = [WsOpen], clock = 0.5, finished = False\<rparr>,
      \<lparr>incoming = [], clock = 1201, finished = False\<rparr>] example_browser)) \<noteq> Returned (Some {})"
  by (simp add: run_defs)

lemma browse_finally_abort:
  "abort_browse_page_flag (fst (browse_finally s)) = abort_browse_page_flag s"
  by (simp add: browse_finally_def)

lemma browse_page_eq:
  "browse_page d w u rq sh ch t0 ticks s =
     (if websocket_url s = None then (reset_visit u rq sh ch s, [], Raised AttributeError)
      else if snd (snd (browse_loop d w ticks
                  ((reset_visit u rq sh ch s)\<lparr>websock := Some False, start_time := t0\<rparr>))) = Running
      then browse_loop d w ticks
             ((reset_visit u rq sh ch s)\<lparr>websock := Some False, start_time := t0\<rparr>)
      else (fst (browse_finally (fst (browse_loop d w ticks
                  ((reset_visit u rq sh ch s)\<lparr>websock := Some False, start_time := t0\<rparr>)))),
            fst (snd (browse_loop d w ticks
                  ((reset_visit u rq sh ch s)\<lparr>websock := Some False, start_time := t0\<rparr>))) @
            snd (browse_finally (fst (browse_loop d w ticks
                  ((reset_visit u rq sh ch s)\<lparr>websock := Some False, start_time := t0\<rparr>)))),
            snd (snd (browse_loop d w ticks
                  ((reset_visit u rq sh ch s)\<lparr>websock := Some False, start_time := t0\<rparr>)))))"
proof -
  let ?s0 = "(reset_visit u rq sh ch s)\<lparr>websock := Some False, start_time := t0\<rparr>"
  have u: "websocket_url (reset_visit u rq sh ch s) = websocket_url s"
    by (simp add: reset_visit_def)
  obtain s1 evs r where l: "browse_loop d w ticks ?s0 = (s1, evs, r)"
    by (cases "browse_loop d w ticks ?s0")
  show ?thesis
    by (cases r) (simp_all add: browse_page_def Let_def u l case_prod_beta)
qed

lemma browse_page_abort:
  assumes "abort_browse_page_flag s"
  shows "abort_browse_page_flag (fst (browse_page d w u rq sh ch t0 ticks s))"
proof -
  let ?s0 = "(reset_visit u rq sh ch s)\<lparr>websock := Some False, start_time := t0\<rparr>"
  have r0: "abort_browse_page_flag (reset_visit u rq sh ch s)"
    using assms by (simp add: reset_visit_def)
  then have f0: "abort_browse_page_flag ?s0" by simp
  have "abort_browse_page_flag (fst (browse_loop d w ticks ?s0))"
    by (rule browse_loop_abort [OF f0])
  with r0 show ?thesis
    by (simp add: browse_page_eq browse_finally_abort)
qed

lemma Browser_start_abort:
  "abort_browse_page_flag (fst (Browser_start tmp prx pid t1 polls s sys)) =
     abort_browse_page_flag s"
  by (simp add: Browser_start_def Let_def case_prod_beta split: outcome.splits)

lemma Browser_stop_abort:
  "abort_browse_page_flag (fst (Browser_stop t2 sticks s sys)) = abort_browse_page_flag s"
  by (auto simp: Browser_stop_def split: option.splits prod.splits outcome.splits tempdir.splits)

text \<open>
  Claim C8, as the code has it. No operation of the driver clears a set abort flag:
  \<open>browse_page\<close>, the message handler, the interval function, \<open>_visit_page\<close>,
  \<open>send_to_chrome\<close>, \<open>abort_browse_page\<close>, \<open>start\<close> and \<open>stop\<close> all keep it. So in
  every later visit of that driver a wake-up with the websocket connected, the behavior absent
  or not finished and no more than 1200 seconds gone since the visit's start raises
  \<open>BrowsingAborted\<close>.
\<close>

theorem abort_flag_never_cleared:
  assumes flag: "abort_browse_page_flag s"
  shows "abort_browse_page_flag (fst (browse_page d w u rq sh ch t0 ticks s)) \<and>
         abort_browse_page_flag (fst (handle_message d w m s)) \<and>
         abort_browse_page_flag (fst (browse_interval_func fin tm s)) \<and>
         abort_browse_page_flag (fst (visit_page s)) \<and>
         abort_browse_page_flag (fst (send_to_chrome mth ps s)) \<and>
         abort_browse_page_flag (abort_browse_page s) \<and>
         abort_browse_page_flag (fst (Browser_start tmp prx pid t1 polls s sys)) \<and>
         abort_browse_page_flag (fst (Browser_stop t2 sticks s sys)) \<and>
         (browse_page d w u rq sh ch t0 pre s = (s1, ev1, Running) \<and>
          ws_steps d w (incoming t) s1 = (s2, ev2) \<and>
          websock s2 = Some True \<and> (behavior s2 = None \<or> \<not> finished t) \<and>
          clock t - t0 \<le> HARD_TIMEOUT_SECONDS \<longrightarrow>
          browse_page d w u rq sh ch t0 (pre @ t # post) s =
            (s2\<lparr>websock := Some False, behavior := None\<rparr>, ev1 @ ev2 @ [WebsockClose],
             Raised BrowsingAborted))"
proof -
  have last: "browse_page d w u rq sh ch t0 (pre @ t # post) s =
            (s2\<lparr>websock := Some False, behavior := None\<rparr>, ev1 @ ev2 @ [WebsockClose],
             Raised BrowsingAborted)"
    if pre: "browse_page d w u rq sh ch t0 pre s = (s1, ev1, Running)"
      and reader: "ws_steps d w (incoming t) s1 = (s2, ev2)"
      and conn: "websock s2 = Some True"
      and unfin: "behavior s2 = None \<or> \<not> finished t"
      and intime: "clock t - t0 \<le> HARD_TIMEOUT_SECONDS"
  proof -
    have "abort_browse_page_flag (fst (browse_page d w u rq sh ch t0 pre s))"
      by (rule browse_page_abort [OF flag])
    then have f1: "abort_browse_page_flag s1" by (simp add: pre)
    have "start_time s1 = t0" by (rule browse_page_start_time [OF pre])
    with intime have intime': "clock t - start_time s1 \<le> HARD_TIMEOUT_SECONDS" by simp
    have nxt: "browse_loop d w (t # post) s1 = (s2, ev2, Raised BrowsingAborted)"
      by (rule tick_aborts [OF f1 reader conn unfin intime'])
    from browse_page_after [OF pre nxt] conn show ?thesis
      by (simp add: browse_finally_def)
  qed
  have hm: "abort_browse_page_flag (fst (handle_message d w m s))"
    using handle_message_frame [of s d w m] flag by (simp add: same_frame_def)
  from flag hm last show ?thesis
    by (simp add: browse_page_abort interval_abort fst_visit_page send_to_chrome_def
        abort_browse_page_def Browser_start_abort Browser_stop_abort)
qed

theorem abort_flag_never_cleared_witness:
  "snd (snd (browse_page example_b64decode example_is_waiting ''http://example/'' True True True 0
     ([] @ \<lparr>incoming = [WsOpen], clock = 0.5, finished = False\<rparr> # [])
     (abort_browse_page example_browser))) = Raised BrowsingAborted"
proof -
  let ?s = "abort_browse_page example_browser"
  let ?t = "\<lparr>incoming = [WsOpen], clock = 0.5, finished = False\<rparr>"
  let ?r = "browse_page example_b64decode example_is_waiting ''http://example/'' True True True 0
     [] ?s"
  let ?w = "ws_steps example_b64decode example_is_waiting (incoming ?t) (fst ?r)"
  have flag: "abort_browse_page_flag ?s" by (simp add: abort_browse_page_def)
  have run: "snd (snd ?r) = Running" by (simp add: run_defs)
  then have pre: "?r = (fst ?r, fst (snd ?r), Running)" by (simp add: prod_eq_iff)
  have reader: "?w = (fst ?w, snd ?w)" by simp
  have conn: "websock (fst ?w) = Some True" by (simp add: run_defs)
  have unfin: "behavior (fst ?w) = None \<or> \<not> finished ?t" by simp
  have intime: "clock ?t - 0 \<le> HARD_TIMEOUT_SECONDS" by (simp add: HARD_TIMEOUT_SECONDS_def)
  from abort_flag_never_cleared [OF flag, where d = example_b64decode
      and w = example_is_waiting and u = "''http://example/''" and rq = True and sh = True
      and ch = True and ?t0.0 = 0 and pre = "[]" and ?s1.0 = "fst ?r" and ?ev1.0 = "fst (snd ?r)"
      and t = ?t and ?s2.0 = "fst ?w" and ?ev2.0 = "snd ?w" and post = "[]"]
    pre reader conn unfin intime
  show ?thesis by simp
qed

text \<open>
  A first wake-up that comes more than 1200 seconds after the start meets the timeout test
  before the abort test: the visit of the aborted driver returns.
\<close>

theorem aborted_driver_completes_counterexample:
  "snd (snd (browse_page example_b64decode example_is_waiting ''http://example/'' True True True 0
     [\<lparr>incoming = [WsOpen], clock = 1201, finished = False\<rparr>]
     (abort_browse_page example_browser))) = Returned None"
  by (simp add: run_defs)

section \<open>The driver: outlinks\<close>

lemma split_on_not_Nil: "split_on c xs \<noteq> []"
  by (induction xs) (auto split: list.splits)

lemma split_on_no_sep: "x \<in> set (split_on c xs) \<Longrightarrow> c \<notin> set x"
proof (induction xs arbitrary: x)
  case Nil
  then show ?case by simp
next
  case (Cons a xs)
  obtain w ws where sp: "split_on c xs = w # ws"
    using split_on_not_Nil [of c xs] by (cases "split_on c xs") auto
  show ?case
  proof (cases "a = c")
    case True
    with Cons show ?thesis by auto
  next
    case False
    with Cons.prems sp have "x = a # w \<or> x \<in> set ws" by simp
    then show ?thesis
    proof
      assume "x = a # w"
      moreover have "c \<notin> set w" using Cons.IH [of w] sp by simp
      ultimately show ?thesis using False by auto
    next
      assume "x \<in> set ws"
      then show ?thesis using Cons.IH [of x] sp by simp
    qed
  qed
qed

lemma hd_split_on_empty: "hd (split_on c xs) = [] \<longleftrightarrow> xs = [] \<or> hd xs = c"
  by (cases xs) (auto split: list.splits)

lemma tl_split_on_empty:
  "[] \<in> set (tl (split_on c xs)) \<longleftrightarrow> xs \<noteq> [] \<and> (last xs = c \<or> adjacent c xs)"
proof (induction xs)
  case Nil
  then show ?case by simp
next
  case (Cons a xs)
  obtain w ws where sp: "split_on c xs = w # ws"
    using split_on_not_Nil [of c xs] by (cases "split_on c xs") auto
  have hd: "w = [] \<longleftrightarrow> xs = [] \<or> hd xs = c" using hd_split_on_empty [of c xs] sp by simp
  have tl: "[] \<in> set ws \<longleftrightarrow> xs \<noteq> [] \<and> (last xs = c \<or> adjacent c xs)"
    using Cons.IH sp by simp
  show ?case
  proof (cases "a = c")
    case True
    then show ?thesis using hd tl sp by (cases xs) auto
  next
    case False
    then show ?thesis using hd tl sp by (cases xs) auto
  qed
qed

lemma split_on_empty_iff:
  "[] \<in> set (split_on c xs) \<longleftrightarrow> xs = [] \<or> hd xs = c \<or> last xs = c \<or> adjacent c xs"
proof -
  obtain w ws where sp: "split_on c xs = w # ws"
    using split_on_not_Nil [of c xs] by (cases "split_on c xs") auto
  have "[] \<in> set (split_on c xs) \<longleftrightarrow> hd (split_on c xs) = [] \<or> [] \<in> set (tl (split_on c xs))"
    using sp by auto
  then show ?thesis
    unfolding hd_split_on_empty tl_split_on_empty by auto
qed

lemma py_split_Inr: "py_split j = Inr parts \<Longrightarrow> \<exists>v. j = JStr v \<and> parts = split_on CHR '' '' v"
  by (cases j) auto

lemma handle_result_outlinks:
  "split_result (outlinks s) \<Longrightarrow> split_result (outlinks (fst (handle_result d w m s)))"
  by (auto simp: handle_result_def start_behavior_def bind_err_def split_result_def
      dest!: py_split_Inr split: sum.splits)

lemma handle_message_outlinks:
  "split_result (outlinks s) \<Longrightarrow> split_result (outlinks (fst (handle_message d w m s)))"
  by (simp add: handle_message_def handle_result_outlinks handle_request_will_be_sent_def
      handle_load_event_fired_def handle_console_message_def handle_debugger_paused_def
      send_to_chrome_def Let_def split: sum.splits)

lemma ws_step_outlinks:
  "split_result (outlinks s) \<Longrightarrow> split_result (outlinks (fst (ws_step d w e s)))"
  using handle_message_outlinks [of s d w]
  by (cases e) (simp_all add: fst_visit_page abort_browse_page_def case_prod_beta)

lemma ws_steps_outlinks:
  "split_result (outlinks s) \<Longrightarrow> split_result (outlinks (fst (ws_steps d w es s)))"
proof (induction es arbitrary: s)
  case Nil
  then show ?case by simp
next
  case (Cons e es)
  from ws_step_outlinks [OF Cons.prems, of d w e] Cons.IH [of "fst (ws_step d w e s)"]
  show ?case by (simp add: case_prod_beta)
qed

lemma interval_outlinks: "outlinks (fst (browse_interval_func fin t s)) = outlinks s"
  by (simp add: browse_interval_func_def send_to_chrome_def)

lemma browse_loop_outlinks:
  "split_result (outlinks s) \<Longrightarrow> snd (snd (browse_loop d w ts s)) = Returned x \<Longrightarrow> split_result x"
proof (induction ts arbitrary: s)
  case Nil
  then show ?case by simp
next
  case (Cons t ts)
  obtain s1 ev1 where a: "ws_steps d w (incoming t) s = (s1, ev1)"
    by (cases "ws_steps d w (incoming t) s")
  obtain s2 ev2 r where b: "browse_interval_func (finished t) (clock t) s1 = (s2, ev2, r)"
    by (cases "browse_interval_func (finished t) (clock t) s1")
  obtain s3 ev3 out where c: "browse_loop d w ts s2 = (s3, ev3, out)"
    by (cases "browse_loop d w ts s2")
  have "split_result (outlinks s1)"
    using ws_steps_outlinks [OF Cons.prems(1), of d w "incoming t"] a by simp
  then have s2: "split_result (outlinks s2)"
    using interval_outlinks [of "finished t" "clock t" s1] b by simp
  show ?case
  proof (cases r)
    case (Inl e)
    with Cons.prems(2) show ?thesis by (simp add: a b)
  next
    case (Inr v)
    show ?thesis
    proof (cases "v = Some True")
      case True
      with Inr Cons.prems(2) s2 show ?thesis by (auto simp: a b)
    next
      case False
      with Inr Cons.prems(2) have "out = Returned x" by (simp add: a b c)
      with Cons.IH [OF s2] c show ?thesis by simp
    qed
  qed
qed

lemma browse_page_outlinks:
  assumes "browse_page d w u rq sh ch t0 ticks s = (s', evs, Returned x)"
  shows "split_result x"
proof -
  let ?s0 = "(reset_visit u rq sh ch s)\<lparr>websock := Some False, start_time := t0\<rparr>"
  have init: "split_result (outlinks ?s0)" by (simp add: split_result_def reset_visit_def)
  obtain s1 ev1 r where l: "browse_loop d w ticks ?s0 = (s1, ev1, r)"
    by (cases "browse_loop d w ticks ?s0")
  from assms have "r = Returned x"
    by (cases r) (auto simp: browse_page_eq l split: if_splits)
  with l have "snd (snd (browse_loop d w ticks ?s0)) = Returned x" by simp
  then show ?thesis by (rule browse_loop_outlinks [OF init])
qed

lemma handle_outlinks_reply:
  assumes nomethod: "map_of m ''method'' = None"
    and ident: "map_of m ''id'' = Some i"
    and pending: "py_eq_id i (waiting_on_outlinks_msg_id s)"
    and other: "\<not> py_eq_id i (waiting_on_screenshot_msg_id s)"
    and val: "result_value m = Inr (JStr v)"
  shows "handle_message d w m s = (s\<lparr>outlinks := Some (set (split_on CHR '' '' v))\<rparr>, [], None)"
proof -
  have "map_of m ''result'' \<noteq> None"
    using val by (auto simp: result_value_def bind_err_def split: option.splits)
  with assms show ?thesis
    by (simp add: handle_message_def has_method_def handle_result_def bind_err_def)
qed

text \<open>
  Claim C4, as the code has it. A reply whose id equals the outlinks-pending id (and not the
  screenshot-pending id, which is tested first) and whose \<open>result.result.value\<close> is a string
  stores the set of the fields of that string, split at every single space, as the visit's
  outlinks. No field contains a space; the empty string is a field exactly when the value is
  empty, begins or ends with a space, or has two spaces in a row. A set has no duplicates by
  its type. Whatever set of outlinks a visit returns is such a set of fields: it is not
  empty and no element has a space.
\<close>

theorem outlinks_are_split_fields:
  assumes nomethod: "map_of m ''method'' = None"
    and ident: "map_of m ''id'' = Some i"
    and pending: "py_eq_id i (waiting_on_outlinks_msg_id s)"
    and other: "\<not> py_eq_id i (waiting_on_screenshot_msg_id s)"
    and val: "result_value m = Inr (JStr v)"
  shows "handle_message d w m s = (s\<lparr>outlinks := Some (set (split_on CHR '' '' v))\<rparr>, [], None) \<and>
         (\<forall>x \<in> set (split_on CHR '' '' v). CHR '' '' \<notin> set x) \<and>
         ([] \<in> set (split_on CHR '' '' v) \<longleftrightarrow>
            v = [] \<or> hd v = CHR '' '' \<or> last v = CHR '' '' \<or> adjacent CHR '' '' v) \<and>
         (browse_page d w u rq sh ch t0 ticks s0 = (s', evs, Returned (Some links)) \<longrightarrow>
            (\<exists>v'. links = set (split_on CHR '' '' v')) \<and> links \<noteq> {} \<and>
            (\<forall>x \<in> links. CHR '' '' \<notin> set x))"
proof -
  have visit: "(\<exists>v'. links = set (split_on CHR '' '' v')) \<and> links \<noteq> {} \<and>
            (\<forall>x \<in> links. CHR '' '' \<notin> set x)"
    if "browse_page d w u rq sh ch t0 ticks s0 = (s', evs, Returned (Some links))"
  proof -
    from browse_page_outlinks [OF that] obtain v' where l: "links = set (split_on CHR '' '' v')"
      by (auto simp: split_result_def)
    with split_on_not_Nil [of "CHR '' ''" v'] split_on_no_sep [of _ "CHR '' ''" v']
    show ?thesis by auto
  qed
  from handle_outlinks_reply [OF assms] split_on_no_sep [of _ "CHR '' ''" v]
    split_on_empty_iff [of "CHR '' ''" v] visit
  show ?thesis by blast
qed

theorem outlinks_are_split_fields_witness:
  "handle_message example_b64decode example_is_waiting (value_reply 10 ''http://a http://b http://a'')
     (example_browser\<lparr>waiting_on_outlinks_msg_id := Some 10\<rparr>) =
   (example_browser\<lparr>waiting_on_outlinks_msg_id := Some 10,
      outlinks := Some {''http://a'', ''http://b''}\<rparr>, [], None)"
proof -
  let ?m = "value_reply 10 ''http://a http://b http://a''"
  let ?s = "example_browser\<lparr>waiting_on_outlinks_msg_id := Some 10\<rparr>"
  have nomethod: "map_of ?m ''method'' = None" by (simp add: value_reply_def)
  have ident: "map_of ?m ''id'' = Some (JInt 10)" by (simp add: value_reply_def)
  have pending: "py_eq_id (JInt 10) (waiting_on_outlinks_msg_id ?s)" by simp
  have other: "\<not> py_eq_id (JInt 10) (waiting_on_screenshot_msg_id ?s)"
    by (simp add: example_browser_def Browser_init_def)
  have val: "result_value ?m = Inr (JStr ''http://a http://b http://a'')"
    by (simp add: value_reply_def result_value_def bind_err_def)
  have sp: "set (split_on CHR '' '' ''http://a http://b http://a'') = {''http://a'', ''http://b''}"
    by auto
  from outlinks_are_split_fields [OF nomethod ident pending other val, THEN conjunct1,
      of example_b64decode example_is_waiting]
  show ?thesis unfolding sp by simp
qed

text \<open>A page without links: the query answers the empty string and the visit returns \<open>{""}\<close>.\<close>

theorem empty_outlink_counterexample:
  "snd (snd (browse_page example_b64decode example_is_waiting ''http://example/'' True True True 0
     [\<lparr>incoming = [WsOpen, WsMessage load_event, WsMessage (screenshot_reply 8)],
        clock = 0.5, finished = True\<rparr>,
      \<lparr>incoming = [WsMessage (value_reply 10 '''')], clock = 1, finished = True\<rparr>]
     example_browser)) = Returned (Some {''''})"
  by (simp add: run_defs)

section \<open>The driver: screenshots and behaviors\<close>

lemma quiet_counts: "quiet evs \<Longrightarrow> screenshots evs = 0 \<and> behaviors_made evs = 0"
  by (auto simp: quiet_def screenshots_def behaviors_made_def)

lemma quiet_then: "quiet evs \<Longrightarrow> screenshot_then_behavior (evs @ rest) = screenshot_then_behavior rest"
proof (induction evs)
  case Nil
  then show ?case by simp
next
  case (Cons e evs)
  then have "quiet evs" and "\<not> is_screenshot e" by (simp_all add: quiet_def)
  with Cons.IH show ?case by simp
qed

lemma then_append:
  "screenshot_then_behavior a \<Longrightarrow> screenshot_then_behavior b \<Longrightarrow> screenshot_then_behavior (a @ b)"
  by (induction a rule: screenshot_then_behavior.induct) (auto split: list.splits)

lemma counts_append:
  "screenshots (a @ b) = screenshots a + screenshots b"
  "behaviors_made (a @ b) = behaviors_made a + behaviors_made b"
  by (simp_all add: screenshots_def behaviors_made_def)

lemma py_eq_id_None: "py_eq_id i None \<Longrightarrow> i = JNull"
  by (cases i) simp_all

lemma quiet_simps:
  "quiet [] = True"
  "quiet (e # es) = (\<not> is_screenshot e \<and> \<not> is_behavior_new e \<and> quiet es)"
  "quiet (a @ b) = (quiet a \<and> quiet b)"
  by (auto simp: quiet_def)

lemma keeps_shot_upd:
  "keeps_shot s (s'\<lparr>command_id := a\<rparr>) evs = keeps_shot s s' evs"
  "keeps_shot s (s'\<lparr>waiting_on_outlinks_msg_id := c\<rparr>) evs = keeps_shot s s' evs"
  "keeps_shot s (s'\<lparr>waiting_on_document_url_msg_id := e\<rparr>) evs = keeps_shot s s' evs"
  "keeps_shot s (s'\<lparr>outlinks := f\<rparr>) evs = keeps_shot s s' evs"
  "keeps_shot s (s'\<lparr>websock := g\<rparr>) evs = keeps_shot s s' evs"
  "keeps_shot s (s'\<lparr>abort_browse_page_flag := h\<rparr>) evs = keeps_shot s s' evs"
  by (simp_all add: keeps_shot_def)

lemma keeps_shot_same: "keeps_shot s s evs = quiet evs"
  by (simp add: keeps_shot_def)

lemma keeps_shot_step: "keeps_shot s s' evs \<Longrightarrow> shot_step n s (s', evs)"
  using quiet_counts [of evs] quiet_then [of evs "[]"]
  by (simp add: keeps_shot_def shot_step_def screenshot_pending_def)

lemma handle_result_shots:
  assumes "map_of m ''id'' \<noteq> Some JNull"
  shows "shot_step 0 s (fst (handle_result d w m s), fst (snd (handle_result d w m s)))"
proof (cases "map_of m ''id''")
  case None
  then have "keeps_shot s (fst (handle_result d w m s)) (fst (snd (handle_result d w m s)))"
    by (simp add: handle_result_def keeps_shot_same quiet_simps)
  then show ?thesis by (rule keeps_shot_step)
next
  case (Some i)
  with assms have nn: "i \<noteq> JNull" by simp
  show ?thesis
  proof (cases "py_eq_id i (waiting_on_screenshot_msg_id s)")
    case True
    have pend: "waiting_on_screenshot_msg_id s \<noteq> None"
    proof
      assume "waiting_on_screenshot_msg_id s = None"
      with True have "py_eq_id i None" by simp
      with nn show False by (simp add: py_eq_id_None)
    qed
    show ?thesis
    proof (cases "on_screenshot s")
      case False
      with True Some pend show ?thesis
        by (simp add: handle_result_def shot_step_def screenshots_def behaviors_made_def
            start_behavior_def screenshot_pending_def)
    next
      case shot: True
      show ?thesis
      proof (cases "bind_err (subscript (JObj m) ''result'') (\<lambda>r.
                       bind_err (subscript r ''data'') d)")
        case (Inl e)
        with True Some shot
        have "keeps_shot s (fst (handle_result d w m s)) (fst (snd (handle_result d w m s)))"
          by (simp add: handle_result_def keeps_shot_same quiet_simps)
        then show ?thesis by (rule keeps_shot_step)
      next
        case (Inr png)
        with True Some shot pend show ?thesis
          by (simp add: handle_result_def shot_step_def screenshots_def behaviors_made_def
              start_behavior_def screenshot_pending_def)
      qed
    qed
  next
    case False
    with Some
    have "keeps_shot s (fst (handle_result d w m s)) (fst (snd (handle_result d w m s)))"
      by (simp add: handle_result_def keeps_shot_same keeps_shot_upd quiet_simps
          split: sum.splits)
    then show ?thesis by (rule keeps_shot_step)
  qed
qed

lemma request_keeps:
  "keeps_shot s (fst (handle_request_will_be_sent m s)) (fst (snd (handle_request_will_be_sent m s)))"
  by (simp add: handle_request_will_be_sent_def Let_def keeps_shot_same quiet_simps
      split: sum.splits)

lemma console_keeps:
  "keeps_shot s (fst (handle_console_message m s)) (fst (snd (handle_console_message m s)))"
  by (simp add: handle_console_message_def keeps_shot_same quiet_simps split: sum.splits)

lemma paused_keeps:
  "keeps_shot s (fst (handle_debugger_paused m s)) (fst (snd (handle_debugger_paused m s)))"
  by (simp add: handle_debugger_paused_def send_to_chrome_def keeps_shot_same keeps_shot_upd
      quiet_simps split: sum.splits)

lemma load_shots:
  "shot_step 1 s (fst (handle_load_event_fired s), fst (snd (handle_load_event_fired s)))"
  by (simp add: handle_load_event_fired_def send_to_chrome_def shot_step_def
      screenshots_def behaviors_made_def screenshot_pending_def)

lemma handle_message_shots:
  assumes "map_of m ''id'' \<noteq> Some JNull"
  shows "shot_step (if has_method m ''Page.loadEventFired'' then 1 else 0) s
           (fst (handle_message d w m s), fst (snd (handle_message d w m s)))"
proof -
  have excl: "has_method m ''Page.loadEventFired'' \<Longrightarrow> \<not> has_method m ''Network.requestWillBeSent''"
    by (simp add: has_method_def)
  show ?thesis
    using excl handle_result_shots [OF assms, of s d w]
      keeps_shot_step [OF request_keeps, of _ s m] keeps_shot_step [OF console_keeps, of _ s m]
      keeps_shot_step [OF paused_keeps, of _ s m] load_shots [of s]
      keeps_shot_step [of s s "[]" 0]
    by (auto simp: handle_message_def keeps_shot_same quiet_simps)
qed

lemma shot_step_seq:
  "shot_step n s (s1, ev1) \<Longrightarrow> shot_step k s1 (s2, ev2) \<Longrightarrow> shot_step (n + k) s (s2, ev1 @ ev2)"
  by (simp add: shot_step_def counts_append then_append)

lemma shot_step_le: "shot_step n s r \<Longrightarrow> n \<le> k \<Longrightarrow> shot_step k s r"
  by (simp add: shot_step_def)

lemma send_all_quiet: "quiet (snd (send_all cmds s))"
proof (induction cmds arbitrary: s)
  case Nil
  then show ?case by (simp add: quiet_simps)
next
  case (Cons x xs)
  obtain m ps where x: "x = (m, ps)" by (cases x)
  from Cons.IH [of "s\<lparr>command_id := command_id s + 1\<rparr>"] show ?case
    by (simp add: x send_to_chrome_def case_prod_beta quiet_simps)
qed

lemma visit_page_keeps: "keeps_shot s (fst (visit_page s)) (snd (visit_page s))"
proof -
  have "quiet (snd (visit_page s))" unfolding visit_page_def by (rule send_all_quiet)
  then show ?thesis by (simp add: fst_visit_page keeps_shot_def)
qed

lemma ws_step_shots:
  assumes "\<not> has_null_id e"
  shows "shot_step (if is_load_event e then 1 else 0) s (ws_step d w e s)"
proof (cases e)
  case WsOpen
  have "keeps_shot s (fst (visit_page (s\<lparr>websock := Some True\<rparr>)))
          (snd (visit_page (s\<lparr>websock := Some True\<rparr>)))"
    using visit_page_keeps [of "s\<lparr>websock := Some True\<rparr>"] by (simp add: keeps_shot_def)
  from keeps_shot_step [OF this, of 0] WsOpen show ?thesis by simp
next
  case (WsMessage m)
  with assms have "map_of m ''id'' \<noteq> Some JNull" by simp
  from handle_message_shots [OF this, of s d w] WsMessage show ?thesis
    by (simp add: case_prod_beta)
next
  case WsClosed
  have "keeps_shot s (s\<lparr>websock := Some False\<rparr>) []"
    by (simp add: keeps_shot_def quiet_simps)
  from keeps_shot_step [OF this, of 0] WsClosed show ?thesis by simp
next
  case AbortCall
  have "keeps_shot s (abort_browse_page s) []"
    by (simp add: keeps_shot_def quiet_simps abort_browse_page_def)
  from keeps_shot_step [OF this, of 0] AbortCall show ?thesis by simp
qed

lemma ws_steps_shots:
  "\<not> list_ex has_null_id es \<Longrightarrow>
   shot_step (length (filter is_load_event es)) s (ws_steps d w es s)"
proof (induction es arbitrary: s)
  case Nil
  have "keeps_shot s s []" by (simp add: keeps_shot_def quiet_simps)
  from keeps_shot_step [OF this, of 0] show ?case by simp
next
  case (Cons e es)
  obtain s1 ev1 where a: "ws_step d w e s = (s1, ev1)" by (cases "ws_step d w e s")
  obtain s2 ev2 where b: "ws_steps d w es s1 = (s2, ev2)" by (cases "ws_steps d w es s1")
  from Cons.prems have ne: "\<not> has_null_id e" and nes: "\<not> list_ex has_null_id es" by simp_all
  have 1: "shot_step (if is_load_event e then 1 else 0) s (s1, ev1)"
    using ws_step_shots [OF ne, of s d w] a by simp
  have 2: "shot_step (length (filter is_load_event es)) s1 (s2, ev2)"
    using Cons.IH [OF nes, of s1] b by simp
  from shot_step_seq [OF 1 2] show ?case by (cases "is_load_event e") (simp_all add: a b)
qed

lemma interval_keeps:
  "keeps_shot s (fst (browse_interval_func fin t s)) (fst (snd (browse_interval_func fin t s)))"
  by (simp add: browse_interval_func_def send_to_chrome_def keeps_shot_def quiet_simps)

lemma browse_loop_shots:
  "\<not> null_ids ts \<Longrightarrow>
   shot_step (load_events ts) s (fst (browse_loop d w ts s), fst (snd (browse_loop d w ts s)))"
proof (induction ts arbitrary: s)
  case Nil
  have "keeps_shot s s []" by (simp add: keeps_shot_def quiet_simps)
  from keeps_shot_step [OF this, of 0] show ?case by (simp add: load_events_def)
next
  case (Cons t ts)
  obtain s1 ev1 where a: "ws_steps d w (incoming t) s = (s1, ev1)"
    by (cases "ws_steps d w (incoming t) s")
  obtain s2 ev2 r where b: "browse_interval_func (finished t) (clock t) s1 = (s2, ev2, r)"
    by (cases "browse_interval_func (finished t) (clock t) s1")
  obtain s3 ev3 out where c: "browse_loop d w ts s2 = (s3, ev3, out)"
    by (cases "browse_loop d w ts s2")
  from Cons.prems have nt: "\<not> list_ex has_null_id (incoming t)" and nts: "\<not> null_ids ts"
    by (simp_all add: null_ids_def)
  let ?n = "length (filter is_load_event (incoming t))"
  have 1: "shot_step ?n s (s1, ev1)" using ws_steps_shots [OF nt, of s d w] a by simp
  have 2: "shot_step 0 s1 (s2, ev2)"
    using keeps_shot_step [OF interval_keeps, of 0 s1 "finished t" "clock t"] b by simp
  have 3: "shot_step (load_events ts) s2 (s3, ev3)" using Cons.IH [OF nts, of s2] c by simp
  have 12: "shot_step ?n s (s2, ev1 @ ev2)" using shot_step_seq [OF 1 2] by simp
  have 123: "shot_step (?n + load_events ts) s (s3, ev1 @ ev2 @ ev3)"
    using shot_step_seq [OF 12 3] by simp
  have total: "load_events (t # ts) = ?n + load_events ts" by (simp add: load_events_def)
  have stop: "shot_step (load_events (t # ts)) s (s2, ev1 @ ev2)"
    using shot_step_le [OF 12, of "load_events (t # ts)"] total by simp
  show ?case
  proof (cases r)
    case (Inl e)
    with stop show ?thesis by (simp add: a b)
  next
    case (Inr v)
    with stop 123 total show ?thesis by (simp add: a b c)
  qed
qed

lemma browse_page_shots:
  assumes "\<not> null_ids ticks"
  shows "behaviors_made (fst (snd (browse_page d w u rq sh ch t0 ticks s))) \<le> load_events ticks \<and>
         screenshots (fst (snd (browse_page d w u rq sh ch t0 ticks s))) \<le>
           behaviors_made (fst (snd (browse_page d w u rq sh ch t0 ticks s))) \<and>
         screenshot_then_behavior (fst (snd (browse_page d w u rq sh ch t0 ticks s)))"
proof -
  let ?s0 = "(reset_visit u rq sh ch s)\<lparr>websock := Some False, start_time := t0\<rparr>"
  have p0: "screenshot_pending ?s0 = 0" by (simp add: screenshot_pending_def reset_visit_def)
  obtain s1 ev1 r where l: "browse_loop d w ticks ?s0 = (s1, ev1, r)"
    by (cases "browse_loop d w ticks ?s0")
  have 1: "shot_step (load_events ticks) ?s0 (s1, ev1)"
    using browse_loop_shots [OF assms, of ?s0 d w] l by simp
  have q: "quiet (snd (browse_finally s1))" by (simp add: browse_finally_def quiet_simps)
  have 2: "shot_step 0 s1 (fst (browse_finally s1), snd (browse_finally s1))"
    using quiet_counts [OF q] quiet_then [OF q, of "[]"]
    by (simp add: shot_step_def screenshot_pending_def browse_finally_def)
  have 3: "shot_step (load_events ticks) ?s0 (fst (browse_finally s1), ev1 @ snd (browse_finally s1))"
    using shot_step_seq [OF 1 2] by simp
  have e: "shot_step (load_events ticks) ?s0 (?s0, [])"
    by (simp add: shot_step_def screenshots_def behaviors_made_def)
  from 1 3 e p0 show ?thesis
    by (auto simp: browse_page_eq l shot_step_def screenshots_def behaviors_made_def)
qed

lemma then_split:
  "screenshot_then_behavior (pre @ OnScreenshot p # post) \<Longrightarrow>
   \<exists>a rest. post = a # BehaviorStart # rest \<and> is_behavior_new a"
proof (induction pre rule: screenshot_then_behavior.induct)
  case 1
  then show ?case by (auto split: list.splits)
next
  case (2 e es)
  show ?case
  proof (cases "is_screenshot e")
    case False
    with "2" show ?thesis by simp
  next
    case True
    show ?thesis
    proof (cases es)
      case Nil
      with True "2.prems" show ?thesis by (auto split: list.splits)
    next
      case (Cons a es')
      show ?thesis
      proof (cases es')
        case Nil
        with Cons True "2.prems" show ?thesis by (auto split: list.splits)
      next
        case (Cons b rest)
        with \<open>es = a # es'\<close> True "2" show ?thesis by auto
      qed
    qed
  qed
qed

lemma once_before:
  assumes "screenshot_then_behavior evs" and "behaviors_made evs \<le> 1"
    and "evs = pre @ OnScreenshot p # post"
  shows "behaviors_made pre = 0"
proof -
  from then_split [of pre p post] assms(1,3)
  obtain a rest where "post = a # BehaviorStart # rest" and "is_behavior_new a" by auto
  with assms(2,3) show ?thesis by (simp add: behaviors_made_def)
qed

lemma handle_screenshot_reply:
  assumes nomethod: "map_of m ''method'' = None"
    and ident: "map_of m ''id'' = Some i"
    and pending: "py_eq_id i (waiting_on_screenshot_msg_id s)"
    and res: "map_of m ''result'' = Some r"
    and data: "subscript r ''data'' = Inr x"
    and dec: "d x = Inr png"
    and cb: "on_screenshot s"
  shows "handle_message d w m s =
           (s\<lparr>waiting_on_screenshot_msg_id := None, behavior := Some (Behavior (url s))\<rparr>,
            [OnScreenshot png, BehaviorNew (url s), BehaviorStart], None)"
  using assms
  by (simp add: handle_message_def has_method_def handle_result_def bind_err_def
      start_behavior_def)

text \<open>
  Claim C7, as the code has it. On a reply whose id equals the screenshot-pending id, with a
  callback given, \<open>onScreenshot\<close> is called once with the base64-decoding of
  \<open>result.data\<close>, and the very next calls construct and start the Behavior. In a visit in
  which no message carries a null id, the callback is called at most as often as a Behavior is
  constructed, which is at most as often as \<open>Page.loadEventFired\<close> arrived, and every call
  is followed at once by the construction and start of a Behavior; with at most one load event
  the callback is called at most once and no Behavior is constructed before it.
\<close>

theorem screenshot_before_behavior:
  assumes nomethod: "map_of m ''method'' = None"
    and ident: "map_of m ''id'' = Some i"
    and pending: "py_eq_id i (waiting_on_screenshot_msg_id s)"
    and res: "map_of m ''result'' = Some r"
    and data: "subscript r ''data'' = Inr x"
    and dec: "d x = Inr png"
    and cb: "on_screenshot s"
  shows "handle_message d w m s =
           (s\<lparr>waiting_on_screenshot_msg_id := None, behavior := Some (Behavior (url s))\<rparr>,
            [OnScreenshot png, BehaviorNew (url s), BehaviorStart], None) \<and>
         (\<not> null_ids ticks \<longrightarrow>
            screenshots (fst (snd (browse_page d w u rq sh ch t0 ticks s0))) \<le>
              behaviors_made (fst (snd (browse_page d w u rq sh ch t0 ticks s0))) \<and>
            behaviors_made (fst (snd (browse_page d w u rq sh ch t0 ticks s0))) \<le>
              load_events ticks \<and>
            screenshot_then_behavior (fst (snd (browse_page d w u rq sh ch t0 ticks s0))) \<and>
            (load_events ticks \<le> 1 \<longrightarrow>
               screenshots (fst (snd (browse_page d w u rq sh ch t0 ticks s0))) \<le> 1 \<and>
               (\<forall>pre p post.
                  fst (snd (browse_page d w u rq sh ch t0 ticks s0)) = pre @ OnScreenshot p # post \<longrightarrow>
                  behaviors_made pre = 0)))"
proof -
  let ?evs = "fst (snd (browse_page d w u rq sh ch t0 ticks s0))"
  have visit: "screenshots ?evs \<le> behaviors_made ?evs \<and> behaviors_made ?evs \<le> load_events ticks \<and>
      screenshot_then_behavior ?evs \<and>
      (load_events ticks \<le> 1 \<longrightarrow> screenshots ?evs \<le> 1 \<and>
         (\<forall>pre p post. ?evs = pre @ OnScreenshot p # post \<longrightarrow> behaviors_made pre = 0))"
    if nn: "\<not> null_ids ticks"
  proof -
    from browse_page_shots [OF nn, of d w u rq sh ch t0 s0]
    have b: "behaviors_made ?evs \<le> load_events ticks"
      and a: "screenshots ?evs \<le> behaviors_made ?evs"
      and c: "screenshot_then_behavior ?evs" by simp_all
    have "behaviors_made pre = 0"
      if "load_events ticks \<le> 1" and "?evs = pre @ OnScreenshot p # post" for pre p post
    proof -
      from b that(1) have "behaviors_made ?evs \<le> 1" by simp
      from once_before [OF c this that(2)] show ?thesis .
    qed
    with a b c show ?thesis by auto
  qed
  from handle_screenshot_reply [where d = d and x = x, OF assms] visit show ?thesis by blast
qed

theorem screenshot_before_behavior_witness:
  "handle_message example_b64decode example_is_waiting (screenshot_reply 8)
     (example_browser\<lparr>on_screenshot := True, waiting_on_screenshot_msg_id := Some 8\<rparr>) =
   (example_browser\<lparr>on_screenshot := True, waiting_on_screenshot_msg_id := Some 8\<rparr>
      \<lparr>waiting_on_screenshot_msg_id := None,
       behavior := Some (Behavior (url (example_browser\<lparr>on_screenshot := True,
                                          waiting_on_screenshot_msg_id := Some 8\<rparr>)))\<rparr>,
    [OnScreenshot ''PNG'',
     BehaviorNew (url (example_browser\<lparr>on_screenshot := True,
                         waiting_on_screenshot_msg_id := Some 8\<rparr>)),
     BehaviorStart], None)"
proof -
  let ?m = "screenshot_reply 8"
  let ?s = "example_browser\<lparr>on_screenshot := True, waiting_on_screenshot_msg_id := Some 8\<rparr>"
  have nomethod: "map_of ?m ''method'' = None" by (simp add: screenshot_reply_def)
  have ident: "map_of ?m ''id'' = Some (JInt 8)" by (simp add: screenshot_reply_def)
  have pending: "py_eq_id (JInt 8) (waiting_on_screenshot_msg_id ?s)" by simp
  have res: "map_of ?m ''result'' = Some (JObj [(''data'', JStr ''UE5H'')])"
    by (simp add: screenshot_reply_def)
  have data: "subscript (JObj [(''data'', JStr ''UE5H'')]) ''data'' = Inr (JStr ''UE5H'')" by simp
  have dec: "example_b64decode (JStr ''UE5H'') = Inr ''PNG''" by (simp add: example_b64decode_def)
  have cb: "on_screenshot ?s" by simp
  from screenshot_before_behavior [where d = example_b64decode and w = example_is_waiting
      and x = "JStr ''UE5H''", OF nomethod ident pending res data dec cb, THEN conjunct1]
  show ?thesis .
qed

text \<open>A page that fires its load event twice gets two screenshots in one visit.\<close>

theorem two_screenshots_counterexample:
  "screenshots (fst (snd (browse_page example_b64decode example_is_waiting ''http://example/''
     True True True 0
     [\<lparr>incoming = [WsOpen, WsMessage load_event, WsMessage (screenshot_reply 8),
                    WsMessage load_event, WsMessage (screenshot_reply 10)],
        clock = 0.5, finished = False\<rparr>] example_browser))) = 2"
  by (simp add: run_defs screenshots_def)

section \<open>The chrome process: start and stop\<close>

lemma start_loop_append:
  "start_loop u t0 (pre @ rest) =
     (case start_loop u t0 pre of
        (ev1, Running) \<Rightarrow> (case start_loop u t0 rest of (ev2, r) \<Rightarrow> (ev1 @ ev2, r))
      | (ev1, r) \<Rightarrow> (ev1, r))"
proof (induction pre)
  case Nil
  then show ?case by (simp add: case_prod_beta)
next
  case (Cons p pre)
  obtain ev1 r1 where a: "start_loop u t0 pre = (ev1, r1)" by (cases "start_loop u t0 pre")
  obtain ev2 r2 where b: "start_loop u t0 rest = (ev2, r2)" by (cases "start_loop u t0 rest")
  show ?case
    by (cases r1) (simp_all add: Cons.IH a b split: sum.splits option.splits)
qed

lemma start_loop_Running:
  "snd (start_loop u t0 pre) = Running \<Longrightarrow> fst (start_loop u t0 pre) = replicate (length pre) (Urlopen u)"
proof (induction pre)
  case Nil
  then show ?case by simp
next
  case (Cons p pre)
  obtain ev1 r1 where a: "start_loop u t0 pre = (ev1, r1)" by (cases "start_loop u t0 pre")
  from Cons.prems have "r1 = Running"
    by (simp add: a split: if_splits sum.splits option.splits)
  with Cons a show ?case
    by (simp split: if_splits sum.splits option.splits)
qed

lemma about_blank_entries_filter:
  "about_blank_entries items = Inr r \<Longrightarrow>
   r = filter (\<lambda>x. subscript x ''url'' = Inr (JStr ''about:blank'')) items"
proof (induction items arbitrary: r)
  case Nil
  then show ?case by simp
next
  case (Cons x xs)
  from Cons.prems obtain u r' where u: "subscript x ''url'' = Inr u"
    and r': "about_blank_entries xs = Inr r'"
    and r: "r = (if u = JStr ''about:blank'' then x # r' else r')"
    by (auto simp: bind_err_def split: sum.splits)
  from Cons.IH [OF r'] u r show ?case by simp
qed

lemma subscript_has_key: "subscript d k = Inr v \<Longrightarrow> has_key d k"
  by (cases d) (auto split: option.splits)

lemma found_poll:
  assumes "response p = Inr j" and "py_iter j = Inr items"
    and "about_blank_entries items = Inr (d # ds)"
    and "subscript d ''webSocketDebuggerUrl'' = Inr ws"
    and "poll_end p - t0 \<le> timeout_sec_start"
  shows "start_loop u t0 (p # post) = ([Urlopen u], Returned ws)"
  using assms subscript_has_key [of d "''webSocketDebuggerUrl''" ws]
  by (simp add: try_debug_url_def bind_err_def)

lemma late_poll:
  assumes "poll_end p - t0 > timeout_sec_start"
  shows "start_loop u t0 (p # post) = ([Urlopen u], Raised PyException)"
  using assms by simp

lemma json_url_upd: "json_url (c\<lparr>chrome_process := a, chrome_start_time := b\<rparr>) = json_url c"
  by (simp add: json_url_def)

lemma Chrome_start_after:
  assumes pre: "snd (start_loop (json_url c) t0 pre) = Running"
    and nxt: "start_loop (json_url c) t0 (p # post) = ([Urlopen (json_url c)], r)"
  shows "Chrome_start pid t0 (pre @ p # post) c sys =
           (c\<lparr>chrome_process := Some pid, chrome_start_time := t0\<rparr>,
            sys\<lparr>procs := insert pid (procs sys)\<rparr>,
            Popen (chrome_args c) (user_home_dir c) #
              replicate (Suc (length pre)) (Urlopen (json_url c)),
            r)"
proof -
  let ?u = "json_url c"
  from pre start_loop_Running [OF pre]
  have l: "start_loop ?u t0 pre = (replicate (length pre) (Urlopen ?u), Running)"
    by (simp add: prod_eq_iff)
  have "start_loop ?u t0 (pre @ p # post) = (replicate (length pre) (Urlopen ?u) @ [Urlopen ?u], r)"
    by (simp add: start_loop_append l nxt del: start_loop.simps)
  then have "start_loop ?u t0 (pre @ p # post) = (replicate (Suc (length pre)) (Urlopen ?u), r)"
    by (simp add: replicate_append_same)
  then show ?thesis
    by (simp add: Chrome_start_def Let_def json_url_upd del: start_loop.simps replicate.simps)
qed

lemma polls_again:
  assumes "poll_end p - t0 \<le> timeout_sec_start"
    and "try_debug_url (response p) = Inr None \<or> try_debug_url (response p) = Inl e"
  shows "start_loop u t0 (p # post) =
           (Urlopen u # fst (start_loop u t0 post), snd (start_loop u t0 post))"
  using assms by (auto simp: case_prod_beta)

lemma no_key_no_url:
  assumes "response p = Inr j" and "py_iter j = Inr items"
    and "about_blank_entries items = Inr (d # ds)"
    and "\<not> has_key d ''webSocketDebuggerUrl''"
  shows "try_debug_url (response p) = Inr None"
  using assms by (simp add: try_debug_url_def bind_err_def)

lemma no_entry_no_url:
  assumes "response p = Inr j" and "py_iter j = Inr items"
    and "about_blank_entries items = Inr []"
  shows "try_debug_url (response p) = Inr None"
  using assms by (simp add: try_debug_url_def bind_err_def)

lemma raised_no_url:
  assumes "response p = Inl e"
  shows "try_debug_url (response p) = Inl e"
  using assms by (simp add: try_debug_url_def bind_err_def)

lemma Chrome_start_goes_on:
  assumes pre: "snd (start_loop (json_url c) t0 pre) = Running"
    and intime: "poll_end p - t0 \<le> timeout_sec_start"
    and nourl: "try_debug_url (response p) = Inr None \<or> try_debug_url (response p) = Inl e"
  shows "Chrome_start pid t0 (pre @ p # post) c sys =
           (c\<lparr>chrome_process := Some pid, chrome_start_time := t0\<rparr>,
            sys\<lparr>procs := insert pid (procs sys)\<rparr>,
            Popen (chrome_args c) (user_home_dir c) #
              replicate (Suc (length pre)) (Urlopen (json_url c)) @
              fst (start_loop (json_url c) t0 post),
            snd (start_loop (json_url c) t0 post))"
proof -
  let ?u = "json_url c"
  from pre start_loop_Running [OF pre]
  have l: "start_loop ?u t0 pre = (replicate (length pre) (Urlopen ?u), Running)"
    by (simp add: prod_eq_iff)
  have n: "start_loop ?u t0 (p # post) =
      (Urlopen ?u # fst (start_loop ?u t0 post), snd (start_loop ?u t0 post))"
    by (rule polls_again [OF intime nourl])
  have "start_loop ?u t0 (pre @ p # post) =
      (replicate (length pre) (Urlopen ?u) @ Urlopen ?u # fst (start_loop ?u t0 post),
       snd (start_loop ?u t0 post))"
    by (simp add: start_loop_append l n del: start_loop.simps)
  then have "start_loop ?u t0 (pre @ p # post) =
      (replicate (Suc (length pre)) (Urlopen ?u) @ fst (start_loop ?u t0 post),
       snd (start_loop ?u t0 post))"
    by (simp add: replicate_append_same)
  then show ?thesis
    by (simp add: Chrome_start_def Let_def json_url_upd del: start_loop.simps replicate.simps)
qed

text \<open>
  Claim C5, as the code has it. After the spawn, \<open>start\<close> polls
  \<open>http://localhost:<port>/json\<close>. When a poll that ends no more than 600 seconds after
  the spawn answers a list in which every entry has a \<open>url\<close>, and the first entry whose
  \<open>url\<close> is \<open>about:blank\<close> has a \<open>webSocketDebuggerUrl\<close>, that url is returned. When
  such a poll raises, or has no \<open>about:blank\<close> entry, or its first \<open>about:blank\<close> entry has
  no \<open>webSocketDebuggerUrl\<close> (whatever the later entries have), \<open>start\<close> is still polling
  after it and goes on with the next poll. A poll that ends more than 600 seconds after the
  spawn raises, and the process stays as it is, neither signalled nor reaped. The 500 ms
  between two polls are the boundary between two entries of the schedule.
\<close>

theorem start_returns_first_about_blank:
  assumes pre: "snd (start_loop (json_url c) t0 pre) = Running"
    and resp: "response p = Inr j"
    and iter: "py_iter j = Inr items"
    and blank: "about_blank_entries items = Inr (d # ds)"
    and ws: "subscript d ''webSocketDebuggerUrl'' = Inr ws"
    and intime: "poll_end p - t0 \<le> 600"
  shows "Chrome_start pid t0 (pre @ p # post) c sys =
           (c\<lparr>chrome_process := Some pid, chrome_start_time := t0\<rparr>,
            sys\<lparr>procs := insert pid (procs sys)\<rparr>,
            Popen (chrome_args c) (user_home_dir c) #
              replicate (Suc (length pre)) (Urlopen (json_url c)),
            Returned ws) \<and>
         d # ds = filter (\<lambda>x. subscript x ''url'' = Inr (JStr ''about:blank'')) items \<and>
         json_url c = ''http://localhost:'' @ str_int (port c) @ ''/json'' \<and>
         (snd (start_loop (json_url c) t0 pre') = Running \<and> poll_end q - t0 > 600 \<longrightarrow>
            Chrome_start pid t0 (pre' @ q # post') c sys =
              (c\<lparr>chrome_process := Some pid, chrome_start_time := t0\<rparr>,
               sys\<lparr>procs := insert pid (procs sys)\<rparr>,
               Popen (chrome_args c) (user_home_dir c) #
                 replicate (Suc (length pre')) (Urlopen (json_url c)),
               Raised PyException)) \<and>
         (snd (start_loop (json_url c) t0 pre') = Running \<and> poll_end q - t0 \<le> 600 \<and>
          (response q = Inl e \<or>
           response q = Inr j' \<and> py_iter j' = Inr items' \<and>
           (about_blank_entries items' = Inr [] \<or>
            about_blank_entries items' = Inr (d' # ds') \<and>
            \<not> has_key d' ''webSocketDebuggerUrl'')) \<longrightarrow>
            Chrome_start pid t0 (pre' @ q # post') c sys =
              (c\<lparr>chrome_process := Some pid, chrome_start_time := t0\<rparr>,
               sys\<lparr>procs := insert pid (procs sys)\<rparr>,
               Popen (chrome_args c) (user_home_dir c) #
                 replicate (Suc (length pre')) (Urlopen (json_url c)) @
                 fst (start_loop (json_url c) t0 post'),
               snd (start_loop (json_url c) t0 post')) \<and>
            snd (start_loop (json_url c) t0 (pre' @ [q])) = Running)"
proof -
  have intime': "poll_end p - t0 \<le> timeout_sec_start"
    using intime by (simp add: timeout_sec_start_def)
  have 1: "start_loop (json_url c) t0 (p # post) = ([Urlopen (json_url c)], Returned ws)"
    by (rule found_poll [OF resp iter blank ws intime'])
  have 2: "Chrome_start pid t0 (pre' @ q # post') c sys =
              (c\<lparr>chrome_process := Some pid, chrome_start_time := t0\<rparr>,
               sys\<lparr>procs := insert pid (procs sys)\<rparr>,
               Popen (chrome_args c) (user_home_dir c) #
                 replicate (Suc (length pre')) (Urlopen (json_url c)),
               Raised PyException)"
    if pre': "snd (start_loop (json_url c) t0 pre') = Running" and late: "poll_end q - t0 > 600"
  proof -
    from late have "poll_end q - t0 > timeout_sec_start" by (simp add: timeout_sec_start_def)
    from late_poll [OF this] have "start_loop (json_url c) t0 (q # post') =
        ([Urlopen (json_url c)], Raised PyException)" .
    from Chrome_start_after [OF pre' this] show ?thesis .
  qed
  have 3: "Chrome_start pid t0 (pre' @ q # post') c sys =
              (c\<lparr>chrome_process := Some pid, chrome_start_time := t0\<rparr>,
               sys\<lparr>procs := insert pid (procs sys)\<rparr>,
               Popen (chrome_args c) (user_home_dir c) #
                 replicate (Suc (length pre')) (Urlopen (json_url c)) @
                 fst (start_loop (json_url c) t0 post'),
               snd (start_loop (json_url c) t0 post')) \<and>
            snd (start_loop (json_url c) t0 (pre' @ [q])) = Running"
    if pre': "snd (start_loop (json_url c) t0 pre') = Running"
      and early: "poll_end q - t0 \<le> 600"
      and shape: "response q = Inl e \<or>
           response q = Inr j' \<and> py_iter j' = Inr items' \<and>
           (about_blank_entries items' = Inr [] \<or>
            about_blank_entries items' = Inr (d' # ds') \<and>
            \<not> has_key d' ''webSocketDebuggerUrl'')"
  proof -
    from early have early': "poll_end q - t0 \<le> timeout_sec_start"
      by (simp add: timeout_sec_start_def)
    from shape have nourl: "try_debug_url (response q) = Inr None \<or>
        try_debug_url (response q) = Inl e"
      using raised_no_url [of q e] no_entry_no_url [of q j' items']
        no_key_no_url [of q j' items' d' ds'] by blast
    have a: "start_loop (json_url c) t0 (q # []) = ([Urlopen (json_url c)], Running)"
      using polls_again [OF early' nourl, of "json_url c" "[]"] by simp
    have b: "snd (start_loop (json_url c) t0 (pre' @ [q])) = Running"
      using pre' a by (simp add: start_loop_append case_prod_beta del: start_loop.simps)
    from Chrome_start_goes_on [OF pre' early' nourl] b show ?thesis by simp
  qed
  from Chrome_start_after [OF pre 1] about_blank_entries_filter [OF blank] 2 3
  show ?thesis by (simp add: json_url_def del: replicate.simps)
qed

theorem start_returns_first_about_blank_witness:
  "snd (snd (snd (Chrome_start 4711 0
      ([\<lparr>response = Inl URLError, poll_end = 0.6\<rparr>,
        \<lparr>response = Inr example_targets_hidden, poll_end = 1.2\<rparr>] @
       \<lparr>response = Inr example_targets, poll_end = 1.8\<rparr> # [])
      example_chrome example_os))) =
   Returned (JStr ''ws://localhost:9200/devtools/page/1'')"
proof -
  let ?pre = "[\<lparr>response = Inl URLError, poll_end = 0.6\<rparr>,
        \<lparr>response = Inr example_targets_hidden, poll_end = 1.2\<rparr>]"
  let ?p = "\<lparr>response = Inr example_targets, poll_end = 1.8\<rparr>"
  let ?d = "JObj [(''url'', JStr ''about:blank''),
                 (''webSocketDebuggerUrl'', JStr ''ws://localhost:9200/devtools/page/1'')]"
  let ?d2 = "JObj [(''url'', JStr ''about:blank''),
                 (''webSocketDebuggerUrl'', JStr ''ws://localhost:9200/devtools/page/2'')]"
  let ?items = "[JObj [(''url'', JStr ''chrome://newtab/'')], ?d, ?d2]"
  have pre: "snd (start_loop (json_url example_chrome) 0 ?pre) = Running"
    by (simp add: timeout_sec_start_def try_debug_url_def bind_err_def
        example_targets_hidden_def)
  have resp: "response ?p = Inr example_targets" by simp
  have iter: "py_iter example_targets = Inr ?items" by (simp add: example_targets_def)
  have blank: "about_blank_entries ?items = Inr (?d # [?d2])" by (simp add: bind_err_def)
  have ws: "subscript ?d ''webSocketDebuggerUrl'' = Inr (JStr ''ws://localhost:9200/devtools/page/1'')"
    by simp
  have intime: "poll_end ?p - 0 \<le> 600" by simp
  from start_returns_first_about_blank [OF pre resp iter blank ws intime, THEN conjunct1,
      of 4711 "[]" example_os]
  show ?thesis by simp
qed

text \<open>
  Exactly one entry has the url \<open>about:blank\<close> and a \<open>webSocketDebuggerUrl\<close>, but it is
  not the first \<open>about:blank\<close> entry: \<open>start\<close> keeps polling.
\<close>

theorem start_skips_unique_entry_counterexample:
  "snd (snd (snd (Chrome_start 4711 0
      [\<lparr>response = Inr example_targets_hidden, poll_end = 0.6\<rparr>,
       \<lparr>response = Inr example_targets_hidden, poll_end = 1.2\<rparr>]
      example_chrome example_os))) = Running"
  by (simp add: Chrome_start_def Let_def example_targets_hidden_def try_debug_url_def
      bind_err_def timeout_sec_start_def)

lemma stop_loop_dirs: "dirs (fst (stop_loop pid f l ts sys)) = dirs sys"
  by (induction ts arbitrary: l) (simp_all add: case_prod_beta split: option.splits)

lemma stop_loop_gone:
  "snd (snd (stop_loop pid f l ts sys)) = Returned () \<Longrightarrow> pid \<notin> procs (fst (stop_loop pid f l ts sys))"
  by (induction ts arbitrary: l) (simp_all add: case_prod_beta split: option.splits if_splits)

lemma stop_loop_returns:
  "\<exists>t \<in> set ts. status t \<noteq> None \<or> t_while t - f \<ge> timeout_sec_stop \<Longrightarrow>
   snd (snd (stop_loop pid f l ts sys)) = Returned ()"
proof (induction ts arbitrary: l)
  case Nil
  then show ?case by simp
next
  case (Cons t ts)
  show ?case
  proof (cases "status t \<noteq> None \<or> t_while t - f \<ge> timeout_sec_stop")
    case True
    then show ?thesis by (auto simp: case_prod_beta split: option.splits)
  next
    case False
    with Cons.prems have "\<exists>t \<in> set ts. status t \<noteq> None \<or> t_while t - f \<ge> timeout_sec_stop"
      by auto
    from Cons.IH [OF this] False show ?thesis
      by (auto simp: case_prod_beta split: option.splits)
  qed
qed

lemma stop_loop_kill:
  "Kill pid \<in> set (fst (snd (stop_loop pid f l ts sys))) \<Longrightarrow>
   (\<exists>evs. fst (snd (stop_loop pid f l ts sys)) = evs @ [Kill pid, Wait pid]) \<and>
   (\<exists>t \<in> set ts. t_while t - f \<ge> timeout_sec_stop)"
proof (induction ts arbitrary: l)
  case Nil
  then show ?case by simp
next
  case (Cons t ts)
  show ?case
  proof (cases "t_while t - f < timeout_sec_stop")
    case False
    then show ?thesis by auto
  next
    case True
    show ?thesis
    proof (cases "status t")
      case (Some st)
      with True Cons.prems show ?thesis by simp
    next
      case None
      let ?l = "if t_check t - l > 10 then t_mark t else l"
      from None True Cons.prems have k: "Kill pid \<in> set (fst (snd (stop_loop pid f ?l ts sys)))"
        by (auto simp: case_prod_beta split: if_splits)
      from Cons.IH [OF k] obtain evs where
        e: "fst (snd (stop_loop pid f ?l ts sys)) = evs @ [Kill pid, Wait pid]"
        and t: "\<exists>t \<in> set ts. t_while t - f \<ge> timeout_sec_stop" by blast
      have "\<exists>evs'. fst (snd (stop_loop pid f l (t # ts) sys)) = evs' @ [Kill pid, Wait pid]"
      proof (cases "t_check t - l > 10")
        case True
        with \<open>t_while t - f < timeout_sec_stop\<close> None e
        have "fst (snd (stop_loop pid f l (t # ts) sys)) =
                (Poll pid # Terminate pid # evs) @ [Kill pid, Wait pid]"
          by (simp add: case_prod_beta)
        then show ?thesis by blast
      next
        case False
        with \<open>t_while t - f < timeout_sec_stop\<close> None e
        have "fst (snd (stop_loop pid f l (t # ts) sys)) = (Poll pid # evs) @ [Kill pid, Wait pid]"
          by (simp add: case_prod_beta)
        then show ?thesis by blast
      qed
      with t show ?thesis by auto
    qed
  qed
qed

lemma startswith_append: "startswith (a @ b) a"
  by (simp add: startswith_def)

lemma rmtree_gone: "d \<notin> rmtree d fs" "d @ sep @ x \<notin> rmtree d fs"
  using startswith_append [of "d @ sep" x] by (simp_all add: rmtree_def)

lemma Chrome_stop_eq:
  "chrome_process c = Some pid \<Longrightarrow>
   Chrome_stop t0 ticks c sys =
     (fst (stop_loop pid t0 t0 ticks sys),
      Terminate pid # fst (snd (stop_loop pid t0 t0 ticks sys)),
      snd (snd (stop_loop pid t0 t0 ticks sys)))"
  by (simp add: Chrome_stop_def case_prod_beta)

lemma Browser_stop_Returned:
  assumes ret: "snd (snd (snd (Browser_stop t0 ticks s sys))) = Returned ()"
    and wd: "work_dir s = TemporaryDirectory dd"
  shows "dd \<notin> dirs (fst (snd (Browser_stop t0 ticks s sys))) \<and>
         dd @ sep @ x \<notin> dirs (fst (snd (Browser_stop t0 ticks s sys)))"
proof (cases "chrome_instance s")
  case None
  with wd show ?thesis by (simp add: Browser_stop_def rmtree_gone)
next
  case (Some c)
  obtain sys' evs r where cs: "Chrome_stop t0 ticks c sys = (sys', evs, r)"
    by (cases "Chrome_stop t0 ticks c sys")
  show ?thesis
  proof (cases r)
    case (Returned u)
    with Some cs wd show ?thesis by (simp add: Browser_stop_def rmtree_gone)
  next
    case (Raised e)
    with Some cs ret show ?thesis by (simp add: Browser_stop_def)
  next
    case Running
    with Some cs ret show ?thesis by (simp add: Browser_stop_def)
  qed
qed

lemma Browser_stop_proc:
  assumes ret: "snd (snd (snd (Browser_stop t0 ticks s sys))) = Returned ()"
    and ci: "chrome_instance s = Some c" and cp: "chrome_process c = Some pid"
  shows "pid \<notin> procs (fst (snd (Browser_stop t0 ticks s sys)))"
proof -
  let ?l = "stop_loop pid t0 t0 ticks sys"
  have cs: "Chrome_stop t0 ticks c sys = (fst ?l, Terminate pid # fst (snd ?l), snd (snd ?l))"
    by (rule Chrome_stop_eq [OF cp])
  show ?thesis
  proof (cases "snd (snd ?l)")
    case (Returned u)
    then have "pid \<notin> procs (fst ?l)" using stop_loop_gone [of pid t0 t0 ticks sys] by simp
    with Returned ci cs ret show ?thesis
      by (cases "work_dir s") (simp_all add: Browser_stop_def)
  next
    case (Raised e)
    with ci cs ret show ?thesis by (simp add: Browser_stop_def)
  next
    case Running
    with ci cs ret show ?thesis by (simp add: Browser_stop_def)
  qed
qed

lemma stop_loop_head: "fst (snd (stop_loop pid f l ts sys)) \<noteq> Terminate pid # evs"
  by (cases ts) (simp_all add: case_prod_beta split: option.splits)

lemma first_round:
  assumes "t_while t - f < timeout_sec_stop" and "status t = None"
  shows "take 2 (fst (snd (stop_loop pid f l (t # ts) sys))) = [Poll pid, Terminate pid] \<longleftrightarrow>
         t_check t - l > 10"
proof (cases "t_check t - l > 10")
  case True
  with assms show ?thesis by (simp add: case_prod_beta)
next
  case False
  have "take 1 (fst (snd (stop_loop pid f l ts sys))) \<noteq> [Terminate pid]"
    using stop_loop_head [of pid f l ts sys]
    by (cases "fst (snd (stop_loop pid f l ts sys))") auto
  with False assms show ?thesis
    by (cases "fst (snd (stop_loop pid f l ts sys))") (auto simp: case_prod_beta)
qed

lemma stop_returned_facts:
  assumes cp: "chrome_process c = Some pid"
    and ret: "Chrome_stop t0 ticks c sys = (sys', evs, Returned ())"
  shows "pid \<notin> procs sys' \<and> dirs sys' = dirs sys \<and> hd evs = Terminate pid \<and>
         (Kill pid \<in> set evs \<longrightarrow>
            (\<exists>pre. evs = pre @ [Kill pid, Wait pid]) \<and> (\<exists>t \<in> set ticks. t_while t - t0 \<ge> 300)) \<and>
         (ticks = t # ts \<and> t_while t - t0 < 300 \<and> status t = None \<longrightarrow>
            (take 3 evs = [Terminate pid, Poll pid, Terminate pid] \<longleftrightarrow> t_check t - t0 > 10)) \<and>
         ((\<exists>t \<in> set ticks'. status t \<noteq> None \<or> t_while t - t0 \<ge> 300) \<longrightarrow>
            snd (snd (Chrome_stop t0 ticks' c sys)) = Returned ()) \<and>
         (snd (snd (snd (Browser_stop t0 ticks' s sys))) = Returned () \<and>
          chrome_instance s = Some c \<and> work_dir s = TemporaryDirectory dd \<longrightarrow>
            pid \<notin> procs (fst (snd (Browser_stop t0 ticks' s sys))) \<and>
            dd \<notin> dirs (fst (snd (Browser_stop t0 ticks' s sys))) \<and>
            dd @ sep @ ''chrome-user-data'' \<notin> dirs (fst (snd (Browser_stop t0 ticks' s sys))))"
proof -
  let ?l = "stop_loop pid t0 t0 ticks sys"
  from Chrome_stop_eq [OF cp, of t0 ticks sys] ret
  have sys': "sys' = fst ?l" and evs: "evs = Terminate pid # fst (snd ?l)"
    and r: "snd (snd ?l) = Returned ()" by simp_all
  have a: "pid \<notin> procs sys'" using stop_loop_gone [OF r] sys' by simp
  have b: "dirs sys' = dirs sys" using stop_loop_dirs [of pid t0 t0 ticks sys] sys' by simp
  have c: "hd evs = Terminate pid" using evs by simp
  have d: "(\<exists>pre. evs = pre @ [Kill pid, Wait pid]) \<and> (\<exists>t \<in> set ticks. t_while t - t0 \<ge> 300)"
    if "Kill pid \<in> set evs"
  proof -
    from that evs have "Kill pid \<in> set (fst (snd ?l))" by simp
    from stop_loop_kill [OF this] obtain pre where
      "fst (snd ?l) = pre @ [Kill pid, Wait pid]"
      and t: "\<exists>t \<in> set ticks. t_while t - t0 \<ge> timeout_sec_stop" by blast
    with evs have "evs = (Terminate pid # pre) @ [Kill pid, Wait pid]" by simp
    with t show ?thesis unfolding timeout_sec_stop_def by blast
  qed
  have e: "take 3 evs = [Terminate pid, Poll pid, Terminate pid] \<longleftrightarrow> t_check t - t0 > 10"
    if "ticks = t # ts" and "t_while t - t0 < 300" and "status t = None"
  proof -
    from that(2) have w: "t_while t - t0 < timeout_sec_stop" by (simp add: timeout_sec_stop_def)
    have "take 3 evs = Terminate pid # take 2 (fst (snd ?l))"
      using evs by (simp add: numeral_3_eq_3 numeral_2_eq_2)
    with first_round [OF w that(3), of pid t0 ts sys] that(1) show ?thesis by simp
  qed
  have f: "snd (snd (Chrome_stop t0 ticks' c sys)) = Returned ()"
    if "\<exists>t \<in> set ticks'. status t \<noteq> None \<or> t_while t - t0 \<ge> 300"
  proof -
    from that have "\<exists>t \<in> set ticks'. status t \<noteq> None \<or> t_while t - t0 \<ge> timeout_sec_stop"
      by (simp add: timeout_sec_stop_def)
    from stop_loop_returns [OF this, of pid t0 sys] show ?thesis
      by (simp add: Chrome_stop_eq [OF cp])
  qed
  have g: "pid \<notin> procs (fst (snd (Browser_stop t0 ticks' s sys))) \<and>
            dd \<notin> dirs (fst (snd (Browser_stop t0 ticks' s sys))) \<and>
            dd @ sep @ ''chrome-user-data'' \<notin> dirs (fst (snd (Browser_stop t0 ticks' s sys)))"
    if "snd (snd (snd (Browser_stop t0 ticks' s sys))) = Returned ()"
      and "chrome_instance s = Some c" and "work_dir s = TemporaryDirectory dd"
    using Browser_stop_proc [OF that(1) that(2) cp] Browser_stop_Returned [OF that(1) that(3)]
    by simp
  show ?thesis
  proof (intro conjI impI)
    show "pid \<notin> procs sys'" by (rule a)
    show "dirs sys' = dirs sys" by (rule b)
    show "hd evs = Terminate pid" by (rule c)
    show "\<exists>pre. evs = pre @ [Kill pid, Wait pid]" if "Kill pid \<in> set evs"
      using d [OF that] by simp
    show "\<exists>t \<in> set ticks. t_while t - t0 \<ge> 300" if "Kill pid \<in> set evs"
      using d [OF that] by simp
    show "take 3 evs = [Terminate pid, Poll pid, Terminate pid] \<longleftrightarrow> t_check t - t0 > 10"
      if "ticks = t # ts \<and> t_while t - t0 < 300 \<and> status t = None"
      using that e by simp
    show "snd (snd (Chrome_stop t0 ticks' c sys)) = Returned ()"
      if "\<exists>t \<in> set ticks'. status t \<noteq> None \<or> t_while t - t0 \<ge> 300"
      by (rule f [OF that])
    show "pid \<notin> procs (fst (snd (Browser_stop t0 ticks' s sys)))"
      if "snd (snd (snd (Browser_stop t0 ticks' s sys))) = Returned () \<and>
          chrome_instance s = Some c \<and> work_dir s = TemporaryDirectory dd"
      using that g by simp
    show "dd \<notin> dirs (fst (snd (Browser_stop t0 ticks' s sys)))"
      if "snd (snd (snd (Browser_stop t0 ticks' s sys))) = Returned () \<and>
          chrome_instance s = Some c \<and> work_dir s = TemporaryDirectory dd"
      using that g by simp
    show "dd @ sep @ ''chrome-user-data'' \<notin> dirs (fst (snd (Browser_stop t0 ticks' s sys)))"
      if "snd (snd (snd (Browser_stop t0 ticks' s sys))) = Returned () \<and>
          chrome_instance s = Some c \<and> work_dir s = TemporaryDirectory dd"
      using that g by simp
  qed
qed

lemma last_signal_simps:
  "last_signal l [] = l"
  "last_signal l (q # qs) = last_signal (if t_check q - l > 10 then t_mark q else l) qs"
  "last_signal l (qs @ [q]) =
     (if t_check q - last_signal l qs > 10 then t_mark q else last_signal l qs)"
  by (simp_all add: last_signal_def)

lemma stop_loop_alive:
  "alive_rounds f pre \<Longrightarrow>
   stop_loop pid f l (pre @ rest) sys =
     (fst (stop_loop pid f (last_signal l pre) rest sys),
      round_events pid l pre @ fst (snd (stop_loop pid f (last_signal l pre) rest sys)),
      snd (snd (stop_loop pid f (last_signal l pre) rest sys)))"
proof (induction pre arbitrary: l)
  case Nil
  then show ?case by (simp add: last_signal_simps)
next
  case (Cons q qs)
  then have q: "t_while q - f < timeout_sec_stop" "status q = None" and qs: "alive_rounds f qs"
    by (simp_all add: alive_rounds_def timeout_sec_stop_def)
  show ?case
  proof (cases "t_check q - l > 10")
    case True
    with q Cons.IH [OF qs, of "t_mark q"] show ?thesis
      by (simp add: last_signal_simps case_prod_beta)
  next
    case False
    with q Cons.IH [OF qs, of l] show ?thesis
      by (simp add: last_signal_simps case_prod_beta)
  qed
qed

lemma round_events_snoc:
  "round_events pid l (pre @ [t]) =
     round_events pid l pre @
       Poll pid # (if t_check t - last_signal l pre > 10 then [Terminate pid] else [])"
  by (induction pre arbitrary: l) (simp_all add: last_signal_simps)

lemma round_events_no_kill: "Kill pid \<notin> set (round_events pid l qs)"
  by (induction qs arbitrary: l) simp_all

lemma Chrome_stop_running:
  assumes cp: "chrome_process c = Some pid" and alive: "alive_rounds t0 pre"
  shows "Chrome_stop t0 pre c sys = (sys, Terminate pid # round_events pid t0 pre, Running)"
  using stop_loop_alive [OF alive, of pid t0 "[]" sys]
  by (simp add: Chrome_stop_eq [OF cp])

lemma Chrome_stop_exit:
  assumes cp: "chrome_process c = Some pid" and alive: "alive_rounds t0 pre"
    and t: "t_while t - t0 < 300" "status t = Some st"
  shows "Chrome_stop t0 (pre @ t # post) c sys =
           (sys\<lparr>procs := procs sys - {pid}\<rparr>,
            Terminate pid # round_events pid t0 pre @ [Poll pid], Returned ())"
  using stop_loop_alive [OF alive, of pid t0 "t # post" sys] t
  by (simp add: Chrome_stop_eq [OF cp] timeout_sec_stop_def)

lemma Chrome_stop_kill:
  assumes cp: "chrome_process c = Some pid" and alive: "alive_rounds t0 pre"
    and t: "t_while t - t0 \<ge> 300"
  shows "Chrome_stop t0 (pre @ t # post) c sys =
           (sys\<lparr>procs := procs sys - {pid}\<rparr>,
            Terminate pid # round_events pid t0 pre @ [Kill pid, Wait pid], Returned ())"
  using stop_loop_alive [OF alive, of pid t0 "t # post" sys] t
  by (simp add: Chrome_stop_eq [OF cp] timeout_sec_stop_def)

lemma Browser_stop_then_cleanup:
  assumes ci: "chrome_instance s = Some c" and wd: "work_dir s = TemporaryDirectory dd"
    and cs: "Chrome_stop t0 ticks c sys = (sys1, evs1, r)"
  shows "Browser_stop t0 ticks s sys =
           (if r = Returned ()
            then (s\<lparr>chrome_instance := None, work_dir := PyNone\<rparr>,
                  sys1\<lparr>dirs := rmtree dd (dirs sys1)\<rparr>, evs1 @ [Cleanup dd], Returned ())
            else (s, sys1, evs1, r))"
  using assms by (cases r) (simp_all add: Browser_stop_def)

text \<open>
  Claim C6, as the code has it. When \<open>Chrome.stop\<close> returns, the process is gone and the
  directories are what they were: \<open>Chrome.stop\<close> deletes nothing. The first thing it does is
  send the termination signal. As long as the rounds find the process alive inside the 300
  seconds, \<open>stop\<close> is still in its loop and its trace is the one \<open>round_events\<close> prescribes:
  every round polls, and signals again exactly when more than 10 seconds have passed since
  the last signal, \<open>last_signal\<close>, which is then that round's. A round that begins inside the
  300 seconds and whose poll reports a status ends \<open>stop\<close> with that poll; a round that begins
  300 seconds or more after the first signal ends it with the kill and the wait, and no kill
  is sent before. \<open>Browser.stop\<close> runs \<open>Chrome.stop\<close> first and cleans up the work directory
  only after \<open>Chrome.stop\<close> has returned, as the last thing it does; when \<open>Chrome.stop\<close> does
  not return, nothing is cleaned up. When \<open>Browser.stop\<close> returns, the process is gone and
  neither the work directory nor the user-data directory below it exists.
\<close>

theorem stop_ends_process:
  assumes cp: "chrome_process c = Some pid"
    and ret: "Chrome_stop t0 ticks c sys = (sys', evs, Returned ())"
  shows "pid \<notin> procs sys' \<and> dirs sys' = dirs sys \<and> hd evs = Terminate pid \<and>
         (Kill pid \<in> set evs \<longrightarrow>
            (\<exists>pre. evs = pre @ [Kill pid, Wait pid]) \<and> (\<exists>t \<in> set ticks. t_while t - t0 \<ge> 300)) \<and>
         (ticks = t # ts \<and> t_while t - t0 < 300 \<and> status t = None \<longrightarrow>
            (take 3 evs = [Terminate pid, Poll pid, Terminate pid] \<longleftrightarrow> t_check t - t0 > 10)) \<and>
         ((\<exists>t \<in> set ticks'. status t \<noteq> None \<or> t_while t - t0 \<ge> 300) \<longrightarrow>
            snd (snd (Chrome_stop t0 ticks' c sys)) = Returned ()) \<and>
         (snd (snd (snd (Browser_stop t0 ticks' s sys))) = Returned () \<and>
          chrome_instance s = Some c \<and> work_dir s = TemporaryDirectory dd \<longrightarrow>
            pid \<notin> procs (fst (snd (Browser_stop t0 ticks' s sys))) \<and>
            dd \<notin> dirs (fst (snd (Browser_stop t0 ticks' s sys))) \<and>
            dd @ sep @ ''chrome-user-data'' \<notin> dirs (fst (snd (Browser_stop t0 ticks' s sys)))) \<and>
         (alive_rounds t0 qs \<longrightarrow>
            Chrome_stop t0 qs c sys = (sys, Terminate pid # round_events pid t0 qs, Running)) \<and>
         (alive_rounds t0 qs \<and> t_while r - t0 < 300 \<and> status r = Some st \<longrightarrow>
            Chrome_stop t0 (qs @ r # post) c sys =
              (sys\<lparr>procs := procs sys - {pid}\<rparr>,
               Terminate pid # round_events pid t0 qs @ [Poll pid], Returned ())) \<and>
         (alive_rounds t0 qs \<and> t_while r - t0 \<ge> 300 \<longrightarrow>
            Chrome_stop t0 (qs @ r # post) c sys =
              (sys\<lparr>procs := procs sys - {pid}\<rparr>,
               Terminate pid # round_events pid t0 qs @ [Kill pid, Wait pid], Returned ())) \<and>
         round_events pid l (qs @ [r]) =
           round_events pid l qs @
             Poll pid # (if t_check r - last_signal l qs > 10 then [Terminate pid] else []) \<and>
         last_signal l [] = l \<and>
         last_signal l (qs @ [r]) =
           (if t_check r - last_signal l qs > 10 then t_mark r else last_signal l qs) \<and>
         Kill pid \<notin> set (round_events pid l qs) \<and>
         (chrome_instance s = Some c \<and> work_dir s = TemporaryDirectory dd \<and>
          Chrome_stop t0 ticks' c sys = (sys1, evs1, rr) \<longrightarrow>
            Browser_stop t0 ticks' s sys =
              (if rr = Returned ()
               then (s\<lparr>chrome_instance := None, work_dir := PyNone\<rparr>,
                     sys1\<lparr>dirs := rmtree dd (dirs sys1)\<rparr>, evs1 @ [Cleanup dd], Returned ())
               else (s, sys1, evs1, rr)))"
proof -
  note old = stop_returned_facts [OF cp ret, of t ts ticks' s dd]
  have n1: "Chrome_stop t0 qs c sys = (sys, Terminate pid # round_events pid t0 qs, Running)"
    if "alive_rounds t0 qs"
    by (rule Chrome_stop_running [OF cp that])
  have n2: "Chrome_stop t0 (qs @ r # post) c sys =
              (sys\<lparr>procs := procs sys - {pid}\<rparr>,
               Terminate pid # round_events pid t0 qs @ [Poll pid], Returned ())"
    if "alive_rounds t0 qs \<and> t_while r - t0 < 300 \<and> status r = Some st"
    using Chrome_stop_exit [OF cp, of t0 qs r st post sys] that by simp
  have n3: "Chrome_stop t0 (qs @ r # post) c sys =
              (sys\<lparr>procs := procs sys - {pid}\<rparr>,
               Terminate pid # round_events pid t0 qs @ [Kill pid, Wait pid], Returned ())"
    if "alive_rounds t0 qs \<and> t_while r - t0 \<ge> 300"
    using Chrome_stop_kill [OF cp, of t0 qs r post sys] that by simp
  have n7: "Browser_stop t0 ticks' s sys =
              (if rr = Returned ()
               then (s\<lparr>chrome_instance := None, work_dir := PyNone\<rparr>,
                     sys1\<lparr>dirs := rmtree dd (dirs sys1)\<rparr>, evs1 @ [Cleanup dd], Returned ())
               else (s, sys1, evs1, rr))"
    if "chrome_instance s = Some c \<and> work_dir s = TemporaryDirectory dd \<and>
          Chrome_stop t0 ticks' c sys = (sys1, evs1, rr)"
    using Browser_stop_then_cleanup [of s c dd t0 ticks' sys sys1 evs1 rr] that by simp
  show ?thesis
    apply (intro conjI)
                 apply (rule old [THEN conjunct1])
                apply (rule old [THEN conjunct2, THEN conjunct1])
               apply (rule old [THEN conjunct2, THEN conjunct2, THEN conjunct1])
              apply (rule old [THEN conjunct2, THEN conjunct2, THEN conjunct2, THEN conjunct1])
             apply (rule old [THEN conjunct2, THEN conjunct2, THEN conjunct2, THEN conjunct2,
                THEN conjunct1])
            apply (rule old [THEN conjunct2, THEN conjunct2, THEN conjunct2, THEN conjunct2,
                THEN conjunct2, THEN conjunct1])
           apply (rule old [THEN conjunct2, THEN conjunct2, THEN conjunct2, THEN conjunct2,
                THEN conjunct2, THEN conjunct2])
          apply (rule impI, erule n1)
         apply (rule impI, erule n2)
        apply (rule impI, erule n3)
       apply (rule round_events_snoc)
      apply (rule last_signal_simps(1))
     apply (rule last_signal_simps(3))
    apply (rule round_events_no_kill)
    apply (rule impI, erule n7)
    done
qed

theorem stop_ends_process_witness:
  "4711 \<notin> procs (fst (Chrome_stop 0
      [\<lparr>t_while = 0, status = None, t_check = 0.5, t_mark = 0.5\<rparr>,
       \<lparr>t_while = 0.5, status = None, t_check = 10.6, t_mark = 10.6\<rparr>,
       \<lparr>t_while = 10.6, status = None, t_check = 15, t_mark = 15\<rparr>,
       \<lparr>t_while = 15, status = None, t_check = 20.7, t_mark = 20.7\<rparr>,
       \<lparr>t_while = 300.1, status = None, t_check = 300.6, t_mark = 300.6\<rparr>]
      (example_chrome\<lparr>chrome_process := Some 4711\<rparr>)
      \<lparr>procs = {4711}, dirs = {''/tmp/w'', ''/tmp/w/chrome-user-data''}\<rparr>)) \<and>
   fst (snd (Chrome_stop 0
      [\<lparr>t_while = 0, status = None, t_check = 0.5, t_mark = 0.5\<rparr>,
       \<lparr>t_while = 0.5, status = None, t_check = 10.6, t_mark = 10.6\<rparr>,
       \<lparr>t_while = 10.6, status = None, t_check = 15, t_mark = 15\<rparr>,
       \<lparr>t_while = 15, status = None, t_check = 20.7, t_mark = 20.7\<rparr>,
       \<lparr>t_while = 300.1, status = None, t_check = 300.6, t_mark = 300.6\<rparr>]
      (example_chrome\<lparr>chrome_process := Some 4711\<rparr>)
      \<lparr>procs = {4711}, dirs = {''/tmp/w'', ''/tmp/w/chrome-user-data''}\<rparr>)) =
   [Terminate 4711, Poll 4711, Poll 4711, Terminate 4711, Poll 4711, Poll 4711, Terminate 4711,
    Kill 4711, Wait 4711]"
proof -
  let ?ticks = "[\<lparr>t_while = 0, status = None, t_check = 0.5, t_mark = 0.5\<rparr>,
       \<lparr>t_while = 0.5, status = None, t_check = 10.6, t_mark = 10.6\<rparr>,
       \<lparr>t_while = 10.6, status = None, t_check = 15, t_mark = 15\<rparr>,
       \<lparr>t_while = 15, status = None, t_check = 20.7, t_mark = 20.7\<rparr>,
       \<lparr>t_while = 300.1, status = None, t_check = 300.6, t_mark = 300.6\<rparr>]"
  let ?c = "example_chrome\<lparr>chrome_process := Some 4711\<rparr>"
  let ?sys = "\<lparr>procs = {4711}, dirs = {''/tmp/w'', ''/tmp/w/chrome-user-data''}\<rparr>"
  let ?r = "Chrome_stop 0 ?ticks ?c ?sys"
  have cp: "chrome_process ?c = Some 4711" by simp
  have evs: "fst (snd ?r) =
      [Terminate 4711, Poll 4711, Poll 4711, Terminate 4711, Poll 4711, Poll 4711,
       Terminate 4711, Kill 4711, Wait 4711]"
    by (simp add: Chrome_stop_def timeout_sec_stop_def)
  have "snd (snd ?r) = Returned ()" by (simp add: Chrome_stop_def timeout_sec_stop_def)
  then have ret: "?r = (fst ?r, fst (snd ?r), Returned ())" by (simp add: prod_eq_iff)
  from stop_ends_process [OF cp ret, THEN conjunct1] evs show ?thesis by simp
qed

text \<open>\<open>Chrome.stop\<close> has returned and both directories are still there.\<close>

theorem stop_keeps_directories_counterexample:
  "Chrome_stop 0 [\<lparr>t_while = 0, status = Some 0, t_check = 0.5, t_mark = 0.5\<rparr>]
      (example_chrome\<lparr>chrome_process := Some 4711\<rparr>)
      \<lparr>procs = {4711}, dirs = {''/tmp/w'', ''/tmp/w/chrome-user-data''}\<rparr> =
   (\<lparr>procs = {}, dirs = {''/tmp/w'', ''/tmp/w/chrome-user-data''}\<rparr>,
    [Terminate 4711, Poll 4711], Returned ())"
  by (simp add: Chrome_stop_def timeout_sec_stop_def)

end
